theory Spec2Isabelle
  imports Complex_Main "HOL-Library.Word" "HOL-Library.Product_Lexorder"
begin

section \<open>JavaScript numbers\<close>

text \<open>
  The library computes with JavaScript numbers (IEEE 754 doubles). A number is modelled as
  a finite real, one of the two infinities, or NaN. Arithmetic on finite values is exact
  real arithmetic whose result overflows to an infinity when its magnitude reaches
  \<open>2 ^ 1024\<close> (\<open>overflow_limit\<close>); rounding to 53 bits, underflow and the sign of zero are not modelled
  (every zero is \<open>+0\<close>). The special cases of each operation follow ECMAScript.
  \<open>TempoAnalyzer\<close>, whose result depends on how a mean and a quotient are rounded, computes
  with the correctly rounded operations of the subsection on binary64 arithmetic below.
\<close>

datatype jsnum = Fin real | PInf | NInf | NaN

definition overflow_limit :: real where
  "overflow_limit = 2 ^ 1024"

definition fl :: "real \<Rightarrow> jsnum" where
  "fl x = (if overflow_limit \<le> x then PInf else if x \<le> - overflow_limit then NInf else Fin x)"

fun jneg :: "jsnum \<Rightarrow> jsnum" where
  "jneg (Fin a) = Fin (- a)"
| "jneg PInf = NInf"
| "jneg NInf = PInf"
| "jneg NaN = NaN"

fun jadd :: "jsnum \<Rightarrow> jsnum \<Rightarrow> jsnum" where
  "jadd NaN y = NaN"
| "jadd x NaN = NaN"
| "jadd (Fin a) (Fin b) = fl (a + b)"
| "jadd PInf NInf = NaN"
| "jadd NInf PInf = NaN"
| "jadd PInf y = PInf"
| "jadd NInf y = NInf"
| "jadd x PInf = PInf"
| "jadd x NInf = NInf"

definition jsub :: "jsnum \<Rightarrow> jsnum \<Rightarrow> jsnum" where
  "jsub x y = jadd x (jneg y)"

text \<open>The sign of a number that is not NaN: \<open>-1\<close>, \<open>0\<close> or \<open>1\<close>.\<close>

fun jsign :: "jsnum \<Rightarrow> real" where
  "jsign (Fin a) = sgn a"
| "jsign PInf = 1"
| "jsign NInf = - 1"
| "jsign NaN = 0"

definition inf_of_sign :: "real \<Rightarrow> jsnum" where
  "inf_of_sign s = (if s = 0 then NaN else if 0 < s then PInf else NInf)"

fun jmul :: "jsnum \<Rightarrow> jsnum \<Rightarrow> jsnum" where
  "jmul NaN y = NaN"
| "jmul x NaN = NaN"
| "jmul (Fin a) (Fin b) = fl (a * b)"
| "jmul x y = inf_of_sign (jsign x * jsign y)"

fun jdiv :: "jsnum \<Rightarrow> jsnum \<Rightarrow> jsnum" where
  "jdiv NaN y = NaN"
| "jdiv x NaN = NaN"
| "jdiv (Fin a) (Fin b) = (if b = 0 then inf_of_sign (sgn a) else fl (a / b))"
| "jdiv (Fin a) y = Fin 0"
| "jdiv x (Fin b) = (if b < 0 then jneg x else x)"
| "jdiv x y = NaN"

fun jlt :: "jsnum \<Rightarrow> jsnum \<Rightarrow> bool" where
  "jlt (Fin a) (Fin b) = (a < b)"
| "jlt NaN y = False"
| "jlt x NaN = False"
| "jlt NInf NInf = False"
| "jlt NInf y = True"
| "jlt x NInf = False"
| "jlt PInf y = False"
| "jlt x PInf = True"

fun jle :: "jsnum \<Rightarrow> jsnum \<Rightarrow> bool" where
  "jle (Fin a) (Fin b) = (a \<le> b)"
| "jle NaN y = False"
| "jle x NaN = False"
| "jle NInf y = True"
| "jle x PInf = True"
| "jle (Fin a) NInf = False"
| "jle PInf y = False"

definition jgt :: "jsnum \<Rightarrow> jsnum \<Rightarrow> bool" where
  "jgt x y = jlt y x"

definition jge :: "jsnum \<Rightarrow> jsnum \<Rightarrow> bool" where
  "jge x y = jle y x"

fun Math_abs :: "jsnum \<Rightarrow> jsnum" where
  "Math_abs (Fin a) = Fin \<bar>a\<bar>"
| "Math_abs NaN = NaN"
| "Math_abs x = PInf"

fun Math_floor :: "jsnum \<Rightarrow> jsnum" where
  "Math_floor (Fin a) = Fin (of_int \<lfloor>a\<rfloor>)"
| "Math_floor x = x"

fun Math_ceil :: "jsnum \<Rightarrow> jsnum" where
  "Math_ceil (Fin a) = Fin (of_int \<lceil>a\<rceil>)"
| "Math_ceil x = x"

text \<open>\<open>Math.round\<close> rounds half up: \<open>Math.round(2.5) = 3\<close>, \<open>Math.round(-2.5) = -2\<close>.\<close>

fun Math_round :: "jsnum \<Rightarrow> jsnum" where
  "Math_round (Fin a) = Fin (of_int \<lfloor>a + 1 / 2\<rfloor>)"
| "Math_round x = x"

fun Math_max :: "jsnum \<Rightarrow> jsnum \<Rightarrow> jsnum" where
  "Math_max NaN y = NaN"
| "Math_max x NaN = NaN"
| "Math_max x y = (if jlt x y then y else x)"

fun Math_min :: "jsnum \<Rightarrow> jsnum \<Rightarrow> jsnum" where
  "Math_min NaN y = NaN"
| "Math_min x NaN = NaN"
| "Math_min x y = (if jlt y x then y else x)"

fun Math_sqrt :: "jsnum \<Rightarrow> jsnum" where
  "Math_sqrt (Fin a) = (if a < 0 then NaN else Fin (sqrt a))"
| "Math_sqrt PInf = PInf"
| "Math_sqrt x = NaN"

fun Math_log :: "jsnum \<Rightarrow> jsnum" where
  "Math_log (Fin a) = (if a < 0 then NaN else if a = 0 then NInf else Fin (ln a))"
| "Math_log PInf = PInf"
| "Math_log x = NaN"

text \<open>
  \<open>Math.pow\<close>, case by case as ECMAScript's \<open>Number::exponentiate\<close> lists them: a NaN
  exponent, a zero exponent, a NaN base, an infinite base, a zero base, an infinite
  exponent, a negative base with a fractional exponent, and the ordinary power.
\<close>

definition is_integer :: "real \<Rightarrow> bool" where
  "is_integer b = (of_int \<lfloor>b\<rfloor> = b)"

definition is_odd_integer :: "real \<Rightarrow> bool" where
  "is_odd_integer b = (is_integer b \<and> odd \<lfloor>b\<rfloor>)"

fun Math_pow :: "jsnum \<Rightarrow> jsnum \<Rightarrow> jsnum" where
  "Math_pow x NaN = NaN"
| "Math_pow x (Fin b) =
     (if b = 0 then Fin 1
      else case x of
        NaN \<Rightarrow> NaN
      | PInf \<Rightarrow> (if 0 < b then PInf else Fin 0)
      | NInf \<Rightarrow> (if 0 < b then (if is_odd_integer b then NInf else PInf) else Fin 0)
      | Fin a \<Rightarrow>
          (if a = 0 then (if 0 < b then Fin 0 else PInf)
           else if 0 < a then fl (a powr b)
           else if is_integer b
             then fl (if is_odd_integer b then - (\<bar>a\<bar> powr b) else \<bar>a\<bar> powr b)
           else NaN))"
| "Math_pow x PInf =
     (case Math_abs x of
        Fin a \<Rightarrow> (if 1 < a then PInf else if a = 1 then NaN else Fin 0)
      | PInf \<Rightarrow> PInf
      | y \<Rightarrow> NaN)"
| "Math_pow x NInf =
     (case Math_abs x of
        Fin a \<Rightarrow> (if 1 < a then Fin 0 else if a = 1 then NaN else PInf)
      | PInf \<Rightarrow> Fin 0
      | y \<Rightarrow> NaN)"

text \<open>
  A value read from an array is a number or \<open>undefined\<close> (\<open>None\<close>); arithmetic and
  comparison convert \<open>undefined\<close> to NaN.
\<close>

type_synonym jsval = "jsnum option"

fun ToNumber :: "jsval \<Rightarrow> jsnum" where
  "ToNumber None = NaN"
| "ToNumber (Some x) = x"

text \<open>
  Reading \<open>xs[i]\<close>: the element when \<open>i\<close> is an integer index below the length, and
  \<open>undefined\<close> for every other key (negative, fractional, infinite, NaN or too large).
\<close>

definition array_get :: "'a list \<Rightarrow> jsnum \<Rightarrow> 'a option" where
  "array_get xs i =
     (case i of
        Fin x \<Rightarrow> (if is_integer x \<and> 0 \<le> x \<and> x < real (length xs)
                  then Some (xs ! nat \<lfloor>x\<rfloor>) else None)
      | y \<Rightarrow> None)"

text \<open>An element of a \<open>Uint8Array\<close> as a number.\<close>

definition byte_value :: "8 word \<Rightarrow> real" where
  "byte_value w = real (unat w)"

definition u8 :: "8 word \<Rightarrow> jsnum" where
  "u8 w = Fin (byte_value w)"

subsection \<open>Binary64 arithmetic\<close>

text \<open>
  IEEE 754 binary64 with round-to-nearest, ties-to-even. A nonzero real \<open>x\<close> with
  \<open>2 ^ e \<le> |x| < 2 ^ (e + 1)\<close> lies between two neighbouring multiples of
  \<open>2 ^ (e - 52)\<close> (of \<open>2 ^ (-1074)\<close> in the subnormal range, \<open>e < -1022\<close>) and is rounded
  to the nearer one, to the one with the even multiplier when it is half way; a result
  whose magnitude reaches \<open>2 ^ 1024\<close> is an infinity. A result that rounds to zero is the
  number 0: zeros carry no sign.
\<close>

definition min_exponent :: int where
  "min_exponent = - 1022"

definition exponent64 :: "real \<Rightarrow> int" where
  "exponent64 x = max \<lfloor>log 2 \<bar>x\<bar>\<rfloor> min_exponent"

definition ulp64 :: "real \<Rightarrow> real" where
  "ulp64 x = 2 powi (exponent64 x - 52)"

definition round_half_even :: "real \<Rightarrow> int" where
  "round_half_even y =
     (let n = \<lfloor>y\<rfloor>; r = y - of_int n
      in if r < 1 / 2 then n else if 1 / 2 < r then n + 1 else if even n then n else n + 1)"

definition round64 :: "real \<Rightarrow> jsnum" where
  "round64 x =
     (if x = 0 then Fin 0 else fl (of_int (round_half_even (x / ulp64 x)) * ulp64 x))"

text \<open>
  The four operations: the exact result of two finite operands is rounded, and every other
  case is the special case of the operation above.
\<close>

fun add64 :: "jsnum \<Rightarrow> jsnum \<Rightarrow> jsnum" where
  "add64 (Fin a) (Fin b) = round64 (a + b)"
| "add64 x y = jadd x y"

definition sub64 :: "jsnum \<Rightarrow> jsnum \<Rightarrow> jsnum" where
  "sub64 x y = add64 x (jneg y)"

fun mul64 :: "jsnum \<Rightarrow> jsnum \<Rightarrow> jsnum" where
  "mul64 (Fin a) (Fin b) = round64 (a * b)"
| "mul64 x y = jmul x y"

fun div64 :: "jsnum \<Rightarrow> jsnum \<Rightarrow> jsnum" where
  "div64 (Fin a) (Fin b) = (if b = 0 then inf_of_sign (sgn a) else round64 (a / b))"
| "div64 x y = jdiv x y"

text \<open>
  The sign of a zero shows only when a number is divided by it. The quotient \<open>a / b\<close> is
  the zero \<open>-0\<close> when it is zero and the signs of \<open>a\<close> and \<open>b\<close> differ.
\<close>

definition negative_zero_quotient :: "jsnum \<Rightarrow> jsnum \<Rightarrow> bool" where
  "negative_zero_quotient a b \<longleftrightarrow> div64 a b = Fin 0 \<and> jlt a (Fin 0) \<noteq> jlt b (Fin 0)"

section \<open>TempoAnalyzer\<close>

text \<open>
  The state is the list of beat timestamps, finite numbers of milliseconds. All arithmetic
  of \<open>getTempo\<close> is binary64 arithmetic. The mean interval is \<open>-0\<close> when a negative sum
  underflows, and \<open>60000 / -0\<close> is \<open>-Infinity\<close>. The sign of a tempo that is zero is not
  represented.
\<close>

record TempoAnalyzer =
  beatTimes :: "real list"

definition maxHistorySize :: nat where
  "maxHistorySize = 24"

definition TempoAnalyzer_new :: TempoAnalyzer where
  "TempoAnalyzer_new = \<lparr>beatTimes = []\<rparr>"

definition addBeat :: "real \<Rightarrow> TempoAnalyzer \<Rightarrow> TempoAnalyzer" where
  "addBeat t s =
     (let pushed = beatTimes s @ [t]
      in s\<lparr>beatTimes := (if maxHistorySize < length pushed then tl pushed else pushed)\<rparr>)"

text \<open>The loop \<open>for (i = 1; i < beatTimes.length; i++) intervals.push(bt[i] - bt[i - 1])\<close>.\<close>

function intervals_loop :: "real list \<Rightarrow> nat \<Rightarrow> jsnum list \<Rightarrow> jsnum list" where
  "intervals_loop bt i acc =
     (if i < length bt
      then intervals_loop bt (Suc i) (acc @ [sub64 (Fin (bt ! i)) (Fin (bt ! (i - 1)))])
      else acc)"
  by pat_completeness auto
termination
  by (relation "measure (\<lambda>(bt, i, acc). length bt - i)") auto

text \<open>
  \<open>[...intervals].sort((a, b) => a - b)\<close>. The sort is stable and the comparator is
  consistent on lists without NaN, so every sorting algorithm returns the same list; the
  model inserts each element before the first one that the comparator does not place it
  after.
\<close>

fun js_insert :: "(jsnum \<Rightarrow> jsnum \<Rightarrow> jsnum) \<Rightarrow> jsnum \<Rightarrow> jsnum list \<Rightarrow> jsnum list" where
  "js_insert cmp x [] = [x]"
| "js_insert cmp x (y # ys) =
     (if jgt (cmp x y) (Fin 0) then y # js_insert cmp x ys else x # y # ys)"

definition js_sort :: "(jsnum \<Rightarrow> jsnum \<Rightarrow> jsnum) \<Rightarrow> jsnum list \<Rightarrow> jsnum list" where
  "js_sort cmp xs = foldr (js_insert cmp) xs []"

definition getTempo :: "TempoAnalyzer \<Rightarrow> jsnum" where
  "getTempo s =
     (if length (beatTimes s) < 4 then Fin 0
      else
        let intervals = intervals_loop (beatTimes s) 1 [];
            sorted = js_sort sub64 intervals;
            q1Index = Math_floor (mul64 (Fin (real (length sorted))) (Fin 0.25));
            q3Index = Math_floor (mul64 (Fin (real (length sorted))) (Fin 0.75));
            q1 = ToNumber (array_get sorted q1Index);
            q3 = ToNumber (array_get sorted q3Index);
            iqr = sub64 q3 q1;
            lowerBound = sub64 q1 (mul64 (Fin 1.5) iqr);
            upperBound = add64 q3 (mul64 (Fin 1.5) iqr);
            filteredIntervals = filter (\<lambda>i. jge i lowerBound \<and> jle i upperBound) intervals
        in if length filteredIntervals = 0 then Fin 0
           else
             let summed = fold (\<lambda>i sum. add64 sum i) filteredIntervals (Fin 0);
                 count = Fin (real (length filteredIntervals));
                 averageInterval = div64 summed count
             in Math_round (if negative_zero_quotient summed count then NInf
                            else div64 (Fin 60000) averageInterval))"

section \<open>Audio frames\<close>

text \<open>
  \<open>AudioData\<close>: the two \<open>Uint8Array\<close>s of a frame, the sample rate of its audio context
  (\<open>audioContext.sampleRate\<close>) and \<open>bufferLength\<close>. The analyser node and the source are
  not read by any function modelled here.
\<close>

record AudioData =
  frequencyData :: "8 word list"
  timeData :: "8 word list"
  sampleRate :: real
  bufferLength :: int

text \<open>Reading a \<open>Uint8Array\<close> at a key: a number, or \<open>undefined\<close> outside the array.\<close>

definition typed_get :: "8 word list \<Rightarrow> jsnum \<Rightarrow> jsval" where
  "typed_get xs i = map_option u8 (array_get xs i)"

section \<open>processAudioData\<close>

record DataProcessorOptions =
  opt_normalize :: "bool option"
  opt_logarithmic :: "bool option"
  opt_smoothing :: "real option"

record Dominant =
  frequency :: jsnum
  amplitude :: jsnum
  index :: nat

record VisualizerProcessedData =
  out_frequencyData :: "jsval list"
  out_timeData :: "jsnum list"
  volume :: jsnum
  peakLevel :: jsnum
  isActive :: bool
  dominant :: Dominant

datatype error = RangeError

text \<open>
  \<open>new Array(n)\<close> throws a RangeError unless \<open>n\<close> is an integer from \<open>0\<close> to
  \<open>2 ^ 32 - 1\<close>; it is the only statement of \<open>processAudioData\<close> that can throw.
\<close>

definition new_Array :: "int \<Rightarrow> error + nat" where
  "new_Array n = (if 0 \<le> n \<and> n < 2 ^ 32 then Inr (nat n) else Inl RangeError)"

text \<open>
  One round of the first loop: \<open>value = frequencyData[i]\<close>, and the running maximum
  \<open>(maxFrequencyValue, maxFrequencyIndex)\<close> moves only to a strictly greater value.
\<close>

definition max_step :: "8 word list \<Rightarrow> nat \<Rightarrow> jsnum \<times> nat \<Rightarrow> jsnum \<times> nat" where
  "max_step fd i st =
     (let v = typed_get fd (Fin (real i))
      in if jgt (ToNumber v) (fst st) then (ToNumber v, i) else st)"

text \<open>One sample of the second loop: \<open>(value / 128) - 1\<close>.\<close>

definition normalizedValue :: "8 word list \<Rightarrow> nat \<Rightarrow> jsnum" where
  "normalizedValue td i = jsub (jdiv (ToNumber (typed_get td (Fin (real i)))) (Fin 128)) (Fin 1)"

text \<open>One bin of the normalisation loop, with the logarithmic scaling when requested.\<close>

definition normalize_bin :: "bool \<Rightarrow> jsnum \<Rightarrow> jsval \<Rightarrow> jsval" where
  "normalize_bin logarithmic maxFrequencyValue raw =
     (let divided = jdiv (ToNumber raw) maxFrequencyValue
      in if logarithmic
         then
           (let logBase = Fin 10;
                minValue = Fin 0.001;
                v = Math_max divided minValue
            in Some (jdiv (Math_log (jadd (jmul v (jsub logBase (Fin 1))) (Fin 1)))
                          (Math_log logBase)))
         else Some divided)"

definition processAudioData ::
  "AudioData \<Rightarrow> DataProcessorOptions \<Rightarrow> error + VisualizerProcessedData" where
  "processAudioData audioData opts =
     (let normalizing = (case opt_normalize opts of None \<Rightarrow> True | Some b \<Rightarrow> b);
          logarithmic = (case opt_logarithmic opts of None \<Rightarrow> False | Some b \<Rightarrow> b)
      in case new_Array (bufferLength audioData) of
           Inl e \<Rightarrow> Inl e
         | Inr n \<Rightarrow>
            (let raw = map (\<lambda>i. typed_get (frequencyData audioData) (Fin (real i))) [0..<n];
                 (maxFrequencyValue, maxFrequencyIndex) =
                   fold (max_step (frequencyData audioData)) [0..<n] (Fin 0, 0);
                 nyquist = jdiv (Fin (sampleRate audioData)) (Fin 2);
                 maxFrequency =
                   jdiv (jmul (Fin (real maxFrequencyIndex)) nyquist)
                        (Fin (of_int (bufferLength audioData)));
                 processedTimeData = map (normalizedValue (timeData audioData)) [0..<n];
                 volumeSum = fold (\<lambda>v sum. jadd sum (Math_abs v)) processedTimeData (Fin 0);
                 vol = jdiv volumeSum (Fin (of_int (bufferLength audioData)));
                 processedFrequencyData =
                   (if normalizing \<and> jgt maxFrequencyValue (Fin 0)
                    then map (normalize_bin logarithmic maxFrequencyValue) raw
                    else raw)
             in Inr \<lparr>out_frequencyData = processedFrequencyData,
                     out_timeData = processedTimeData,
                     volume = vol,
                     peakLevel = jdiv maxFrequencyValue (Fin 255),
                     isActive = jgt vol (Fin 0.05),
                     dominant = \<lparr>frequency = maxFrequency,
                                  amplitude = jdiv maxFrequencyValue (Fin 255),
                                  index = maxFrequencyIndex\<rparr>\<rparr>))"

definition default_options :: DataProcessorOptions where
  "default_options = \<lparr>opt_normalize = None, opt_logarithmic = None, opt_smoothing = None\<rparr>"

section \<open>extractFrequencyBands\<close>



definition default_bands :: "real list" where
  "default_bands = [60, 170, 310, 600, 1000, 3000, 6000, 12000, 14000, 16000]"

section \<open>calculateSpectrumCharacteristics\<close>

record SpectrumCharacteristics =
  centroid :: jsnum
  spread :: jsnum
  flatness :: jsnum

text \<open>
  One round of the first loop over the bins: the state is \<open>(sum, weightedSum, product)\<close> of the source,
  and a bin enters the product only when its amplitude is positive.
\<close>

definition spectrum_step ::
  "jsnum list \<Rightarrow> jsnum \<Rightarrow> nat \<Rightarrow> jsnum \<times> jsnum \<times> jsnum \<Rightarrow> jsnum \<times> jsnum \<times> jsnum" where
  "spectrum_step fd nyquist i st =
     (case st of (ampSum, weightedSum, ampProduct) \<Rightarrow>
        let freq = jdiv (jmul (Fin (real i)) nyquist) (Fin (real (length fd)));
            amp = fd ! i
        in (jadd ampSum amp,
            jadd weightedSum (jmul freq amp),
            if jgt amp (Fin 0) then jmul ampProduct amp else ampProduct))"

definition spread_step :: "jsnum list \<Rightarrow> jsnum \<Rightarrow> jsnum \<Rightarrow> nat \<Rightarrow> jsnum \<Rightarrow> jsnum" where
  "spread_step fd nyquist cen i acc =
     (let freq = jdiv (jmul (Fin (real i)) nyquist) (Fin (real (length fd)));
          amp = fd ! i
      in jadd acc (jmul (Math_pow (jsub freq cen) (Fin 2)) amp))"

definition calculateSpectrumCharacteristics :: "jsnum list \<Rightarrow> real \<Rightarrow> SpectrumCharacteristics" where
  "calculateSpectrumCharacteristics fd rate =
     (let n = length fd;
          nyquist = jdiv (Fin rate) (Fin 2);
          (ampSum, weightedSum, ampProduct) =
             fold (spectrum_step fd nyquist) [0..<n] (Fin 0, Fin 0, Fin 1);
          cen = (if jgt ampSum (Fin 0) then jdiv weightedSum ampSum else Fin 0);
          spr = (if jgt ampSum (Fin 0)
                 then Math_sqrt (jdiv (fold (spread_step fd nyquist cen) [0..<n] (Fin 0)) ampSum)
                 else Fin 0);
          geometricMean =
             (if jgt ampSum (Fin 0) then Math_pow ampProduct (jdiv (Fin 1) (Fin (real n)))
              else Fin 0);
          arithmeticMean = jdiv ampSum (Fin (real n));
          flat = (if jgt arithmeticMean (Fin 0) then jdiv geometricMean arithmeticMean else Fin 0)
      in \<lparr>centroid = cen, spread = spr, flatness = flat\<rparr>)"

section \<open>BeatDetector\<close>

record FrequencyRange =
  low :: real
  high :: real

record BeatDetectorOptions =
  threshold :: real
  decayRate :: real
  minTimeBetweenBeats :: real
  frequencyRange :: FrequencyRange

record BeatInfo =
  isBeat :: bool
  energy :: jsnum
  info_averageEnergy :: jsnum
  delta :: jsnum
  time :: real

record BeatDetector =
  options :: BeatDetectorOptions
  averageEnergy :: jsnum
  lastBeatTime :: real
  energyHistory :: "jsnum list"

definition historySize :: nat where
  "historySize = 43"

definition default_beat_options :: BeatDetectorOptions where
  "default_beat_options =
     \<lparr>threshold = 0.15, decayRate = 0.98, minTimeBetweenBeats = 250,
      frequencyRange = \<lparr>low = 60, high = 120\<rparr>\<rparr>"

text \<open>The constructor, for options already completed with their defaults.\<close>

definition BeatDetector_new :: "BeatDetectorOptions \<Rightarrow> BeatDetector" where
  "BeatDetector_new opts =
     \<lparr>options = opts, averageEnergy = Fin 0, lastBeatTime = 0,
      energyHistory = replicate historySize (Fin 0)\<rparr>"

definition reset :: "BeatDetector \<Rightarrow> BeatDetector" where
  "reset d = d\<lparr>averageEnergy := Fin 0, lastBeatTime := 0,
               energyHistory := replicate historySize (Fin 0)\<rparr>"

text \<open>\<open>lowIndex\<close> and \<open>highIndex\<close> of \<open>detect\<close>.\<close>

definition band_range :: "BeatDetectorOptions \<Rightarrow> AudioData \<Rightarrow> jsnum \<times> jsnum" where
  "band_range opts a =
     (let nyquist = jdiv (Fin (sampleRate a)) (Fin 2)
      in (Math_floor (jdiv (jmul (Fin (low (frequencyRange opts))) (Fin (of_int (bufferLength a))))
                           nyquist),
          Math_ceil (jdiv (jmul (Fin (high (frequencyRange opts))) (Fin (of_int (bufferLength a))))
                          nyquist)))"

text \<open>
  Reading \<open>frequencyData[i]\<close> in \<open>detect\<close>: the read returns the element, or \<open>undefined\<close>
  outside the array, and enters its key in the record of the keys read so far.
\<close>

definition read_bin :: "8 word list \<Rightarrow> jsnum \<Rightarrow> jsnum list \<Rightarrow> jsval \<times> jsnum list" where
  "read_bin fd i reads = (typed_get fd i, reads @ [i])"

text \<open>\<open>Math.pow(v / 255, 2)\<close> for the value \<open>v\<close> that was read.\<close>

definition band_power :: "jsval \<Rightarrow> jsnum" where
  "band_power v = Math_pow (jdiv (ToNumber v) (Fin 255)) (Fin 2)"

text \<open>
  The loop \<open>for (i = lowIndex; i <= highIndex; i++) energy += Math.pow(frequencyData[i] / 255, 2)\<close>.
  Its bounds are numbers, not array indices, and nothing bounds the number of rounds: with
  an infinite \<open>highIndex\<close> the loop does not end, which is the result \<open>None\<close>. The state
  of the loop is the energy summed so far and the record of the keys read.
\<close>

partial_function (option) energy_loop ::
  "8 word list \<Rightarrow> jsnum \<Rightarrow> jsnum \<Rightarrow> jsnum \<times> jsnum list \<Rightarrow> (jsnum \<times> jsnum list) option" where
  "energy_loop fd i highIndex st =
     (if jle i highIndex
      then (let r = read_bin fd i (snd st)
            in energy_loop fd (jadd i (Fin 1)) highIndex
                 (jadd (fst st) (band_power (fst r)), snd r))
      else Some st)"

text \<open>\<open>if (highIndex > lowIndex) energy /= (highIndex - lowIndex + 1)\<close>.\<close>

definition band_average :: "jsnum \<Rightarrow> jsnum \<Rightarrow> jsnum \<Rightarrow> jsnum" where
  "band_average lowIndex highIndex summed =
     (if jgt highIndex lowIndex
      then jdiv summed (jadd (jsub highIndex lowIndex) (Fin 1))
      else summed)"

text \<open>
  The rest of \<open>detect\<close> once the band energy is known: the history takes the energy and
  drops its oldest entry, the average decays towards the mean of the window, and the call
  reports a beat when the energy exceeds the average by more than the threshold and more
  than \<open>minTimeBetweenBeats\<close> has passed since \<open>lastBeatTime\<close>. \<open>now\<close> is what
  \<open>Date.now()\<close> returns during the call.
\<close>

definition track_energy :: "BeatDetector \<Rightarrow> jsnum \<Rightarrow> real \<Rightarrow> BeatInfo \<times> BeatDetector" where
  "track_energy d en now =
     (let history = tl (energyHistory d @ [en]);
          windowAverage =
            jdiv (fold (\<lambda>e sum. jadd sum e) history (Fin 0)) (Fin (real historySize));
          avg = jadd (jmul (averageEnergy d) (Fin (decayRate (options d))))
                     (jmul windowAverage (jsub (Fin 1) (Fin (decayRate (options d)))));
          dl = jsub en avg;
          beat = (jgt dl (Fin (threshold (options d))) \<and>
                  jgt (jsub (Fin now) (Fin (lastBeatTime d)))
                      (Fin (minTimeBetweenBeats (options d))))
      in (\<lparr>isBeat = beat, energy = en, info_averageEnergy = avg, delta = dl, time = now\<rparr>,
          d\<lparr>energyHistory := history, averageEnergy := avg,
            lastBeatTime := (if beat then now else lastBeatTime d)\<rparr>))"

definition detect ::
  "BeatDetector \<Rightarrow> AudioData option \<Rightarrow> real \<Rightarrow> (BeatInfo \<times> BeatDetector) option" where
  "detect d audioData now =
     (case audioData of
        None \<Rightarrow>
          Some (\<lparr>isBeat = False, energy = Fin 0, info_averageEnergy = Fin 0, delta = Fin 0,
                 time = now\<rparr>, d)
      | Some a \<Rightarrow>
         (case band_range (options d) a of (lowIndex, highIndex) \<Rightarrow>
           (case energy_loop (frequencyData a) lowIndex highIndex (Fin 0, []) of
              None \<Rightarrow> None
            | Some (summed, reads) \<Rightarrow>
                Some (track_energy d (band_average lowIndex highIndex summed) now))))"


text \<open>A sequence of calls on one detector: each call is a frame (or none) and the clock.\<close>

fun detect_all ::
  "BeatDetector \<Rightarrow> (AudioData option \<times> real) list \<Rightarrow> (BeatInfo list \<times> BeatDetector) option" where
  "detect_all d [] = Some ([], d)"
| "detect_all d ((a, now) # calls) =
     (case detect d a now of
        None \<Rightarrow> None
      | Some (info, d') \<Rightarrow>
         (case detect_all d' calls of
            None \<Rightarrow> None
          | Some (infos, d'') \<Rightarrow> Some (info # infos, d'')))"

section \<open>Reference definitions\<close>

subsection \<open>Frames and index ranges\<close>


text \<open>The integer keys from \<open>lo\<close> to \<open>hi\<close>, both included, as numbers.\<close>

definition int_keys :: "int \<Rightarrow> int \<Rightarrow> jsnum list" where
  "int_keys lo hi = map (\<lambda>k. Fin (of_int k)) [lo..hi]"

text \<open>
  The two bin indices of \<open>detect\<close> as integers,
  \<open>floor(low * bufferLength / nyquist)\<close> and \<open>ceil(high * bufferLength / nyquist)\<close>.
\<close>

definition lowIndex_of :: "BeatDetectorOptions \<Rightarrow> AudioData \<Rightarrow> int" where
  "lowIndex_of opts a =
     \<lfloor>low (frequencyRange opts) * of_int (bufferLength a) / (sampleRate a / 2)\<rfloor>"

definition highIndex_of :: "BeatDetectorOptions \<Rightarrow> AudioData \<Rightarrow> int" where
  "highIndex_of opts a =
     \<lceil>high (frequencyRange opts) * of_int (bufferLength a) / (sampleRate a / 2)\<rceil>"

text \<open>
  The sample rate is a positive finite number, and the two index computations neither
  overflow nor leave the range in which every integer is a number (below \<open>2 ^ 53\<close>).
\<close>

definition safe_indices :: "BeatDetectorOptions \<Rightarrow> AudioData \<Rightarrow> bool" where
  "safe_indices opts a \<longleftrightarrow>
     0 < sampleRate a \<and> sampleRate a < overflow_limit \<and>
     \<bar>low (frequencyRange opts) * of_int (bufferLength a)\<bar> < overflow_limit \<and>
     \<bar>high (frequencyRange opts) * of_int (bufferLength a)\<bar> < overflow_limit \<and>
     \<bar>low (frequencyRange opts) * of_int (bufferLength a) / (sampleRate a / 2)\<bar> < 2 ^ 53 \<and>
     \<bar>high (frequencyRange opts) * of_int (bufferLength a) / (sampleRate a / 2)\<bar> < 2 ^ 53"

text \<open>
  A frame as the acquisition side delivers it: both arrays have \<open>bufferLength\<close> elements
  (fewer than \<open>2 ^ 32\<close>), and the sample rate is a positive finite number.
\<close>

definition well_formed :: "AudioData \<Rightarrow> bool" where
  "well_formed a \<longleftrightarrow>
     bufferLength a = int (length (frequencyData a)) \<and>
     length (timeData a) = length (frequencyData a) \<and>
     length (frequencyData a) < 2 ^ 32 \<and>
     0 < sampleRate a \<and> sampleRate a < overflow_limit"

text \<open>
  The time of the last call that reported a beat, or \<open>init\<close> when none did.
\<close>

definition last_beat_time :: "real \<Rightarrow> BeatInfo list \<Rightarrow> real" where
  "last_beat_time init infos = foldl (\<lambda>t info. if isBeat info then time info else t) init infos"

subsection \<open>Example inputs\<close>



definition four_bin_frame :: AudioData where
  "four_bin_frame =
     \<lparr>frequencyData = [1, 2, 3, 4], timeData = [128, 128, 128, 128], sampleRate = 44100,
      bufferLength = 4\<rparr>"

text \<open>A frame of 1024 bins at 44100 Hz whose magnitudes all have the value \<open>w\<close>.\<close>

definition uniform_frame :: "8 word \<Rightarrow> AudioData" where
  "uniform_frame w =
     \<lparr>frequencyData = replicate 1024 w, timeData = replicate 1024 128, sampleRate = 44100,
      bufferLength = 1024\<rparr>"

text \<open>
  The refractory scenario: 43 quiet frames (band energy \<open>(57 / 255)\<^sup>2\<close>, about 0.05), one
  every 16 ms, then three spikes (band energy \<open>(180 / 255)\<^sup>2\<close>, about 0.5) at 2000 ms,
  100 ms later and 400 ms later.
\<close>

definition quiet_calls :: "(AudioData option \<times> real) list" where
  "quiet_calls = map (\<lambda>k. (Some (uniform_frame 57), 1000 + 16 * real k)) [0..<43]"

definition spike_calls :: "(AudioData option \<times> real) list" where
  "spike_calls =
     [(Some (uniform_frame 180), 2000), (Some (uniform_frame 180), 2100),
      (Some (uniform_frame 180), 2400)]"

text \<open>Frames for \<open>processAudioData\<close>: one whose time-domain array is missing, one whose
  arrays are all zero, a silent one (no magnitude, the waveform at its centre 128), and one
  whose \<open>bufferLength\<close> is not an array length.\<close>

definition mismatched_frame :: AudioData where
  "mismatched_frame = \<lparr>frequencyData = [5], timeData = [], sampleRate = 44100, bufferLength = 1\<rparr>"

definition zero_frame :: AudioData where
  "zero_frame = \<lparr>frequencyData = [0], timeData = [0], sampleRate = 44100, bufferLength = 1\<rparr>"

definition silent_frame :: AudioData where
  "silent_frame = \<lparr>frequencyData = [0], timeData = [128], sampleRate = 44100, bufferLength = 1\<rparr>"

definition negative_length_frame :: AudioData where
  "negative_length_frame =
     \<lparr>frequencyData = [5], timeData = [5], sampleRate = 44100, bufferLength = - 1\<rparr>"

text \<open>The logarithmic scaling of a level: \<open>log(max(x, 0.001) * 9 + 1) / log(10)\<close>.\<close>

definition log_scale :: "real \<Rightarrow> real" where
  "log_scale x = ln (max x 0.001 * 9 + 1) / ln 10"

text \<open>The band energies of the quiet frame and of the spike frame.\<close>

definition quiet_energy :: real where
  "quiet_energy = (byte_value 57 / 255)\<^sup>2"

definition spike_energy :: real where
  "spike_energy = (byte_value 180 / 255)\<^sup>2"

text \<open>
  A detector with the default options whose average and history are finite numbers.
\<close>

definition mk_detector :: "real \<Rightarrow> real \<Rightarrow> real list \<Rightarrow> BeatDetector" where
  "mk_detector x lst hs =
     \<lparr>options = default_beat_options, averageEnergy = Fin x, lastBeatTime = lst,
      energyHistory = map Fin hs\<rparr>"

subsection \<open>Band indices and spectral flatness in real arithmetic\<close>


text \<open>
  The total amplitude of a byte array, the product of its positive amplitudes, and the
  flatness the specification describes: the \<open>N\<close>-th root of that product over the
  arithmetic mean, \<open>N\<close> being the number of bins.
\<close>

definition amplitude_sum :: "8 word list \<Rightarrow> real" where
  "amplitude_sum ws = sum_list (map byte_value ws)"

definition positive_product :: "8 word list \<Rightarrow> real" where
  "positive_product ws = prod_list (filter (\<lambda>v. 0 < v) (map byte_value ws))"

definition byte_flatness :: "8 word list \<Rightarrow> real" where
  "byte_flatness ws =
     positive_product ws powr (1 / real (length ws)) / (amplitude_sum ws / real (length ws))"

subsection \<open>The energy of a band\<close>



subsection \<open>Doubles\<close>

text \<open>
  Every finite double is a whole multiple of the smallest one, \<open>2 ^ (-1074)\<close>. A number is
  a double when it is such a multiple or an infinity.
\<close>

definition on_grid :: "real \<Rightarrow> bool" where
  "on_grid a = is_integer (a / 2 powi (min_exponent - 52))"

fun is_double :: "jsnum \<Rightarrow> bool" where
  "is_double (Fin a) = on_grid a"
| "is_double NaN = False"
| "is_double x = True"

text \<open>The smallest positive double, \<open>2 ^ (-1074)\<close>, about \<open>5e-324\<close>.\<close>

definition min_double :: real where
  "min_double = 2 powi (min_exponent - 52)"

subsection \<open>The tempo algorithm as the specification words it\<close>

text \<open>
  The \<open>n - 1\<close> consecutive inter-beat intervals of \<open>n\<close> timestamps, each the later
  timestamp minus the earlier one.
\<close>

definition consecutive_intervals :: "real list \<Rightarrow> jsnum list" where
  "consecutive_intervals ts = map (\<lambda>(a, b). sub64 (Fin b) (Fin a)) (zip ts (tl ts))"

text \<open>
  The position of a number in the order of the numbers: \<open>-Infinity\<close> below every finite
  number, \<open>Infinity\<close> above. Sorting is the library's stable \<open>sort_key\<close> by this position.
\<close>

fun jkey :: "jsnum \<Rightarrow> int \<times> real" where
  "jkey (Fin a) = (0, a)"
| "jkey PInf = (1, 0)"
| "jkey NInf = (- 1, 0)"
| "jkey NaN = (2, 0)"

text \<open>
  Zero with fewer than four timestamps; otherwise the intervals are sorted, the quartiles
  are read at \<open>floor(0.25 * len)\<close> and \<open>floor(0.75 * len)\<close>, the intervals within 1.5 IQR of
  the quartiles are kept, and the result is zero when none is kept and
  \<open>round(60000 / mean)\<close> of the kept ones otherwise, in binary64 arithmetic (\<open>-Infinity\<close>
  when the mean is \<open>-0\<close>).
\<close>

definition getTempo_spec :: "real list \<Rightarrow> jsnum" where
  "getTempo_spec ts =
     (if length ts < 4 then Fin 0
      else
        let iv = consecutive_intervals ts;
            sorted = sort_key jkey iv;
            q1 = sorted ! nat \<lfloor>0.25 * real (length sorted)\<rfloor>;
            q3 = sorted ! nat \<lfloor>0.75 * real (length sorted)\<rfloor>;
            iqr = sub64 q3 q1;
            kept = filter (\<lambda>x. jle (sub64 q1 (mul64 (Fin 1.5) iqr)) x \<and>
                                jle x (add64 q3 (mul64 (Fin 1.5) iqr))) iv
        in if kept = [] then Fin 0
           else
             let summed = foldl add64 (Fin 0) kept;
                 count = Fin (real (length kept));
                 mean = div64 summed count
             in Math_round (if negative_zero_quotient summed count then NInf
                            else div64 (Fin 60000) mean))"

section \<open>Numbers: basic facts\<close>

lemma overflow_limit_large: "2 ^ 64 < overflow_limit" "10 ^ 15 < overflow_limit"
  by (simp_all add: overflow_limit_def)

lemma overflow_limit_pos [simp]: "0 < overflow_limit"
  by (simp add: overflow_limit_def)

lemma fl_Fin: "\<bar>x\<bar> < overflow_limit \<Longrightarrow> fl x = Fin x"
  by (auto simp: fl_def)

lemma fl_small: "\<bar>x\<bar> \<le> 10 ^ 15 \<Longrightarrow> fl x = Fin x"
  using overflow_limit_large(2) by (intro fl_Fin) linarith


lemma below_limit_53: "(2::real) ^ 53 + 2 < overflow_limit"
proof -
  have "(2::real) ^ 53 + 2 < 2 ^ 64" by simp
  then show ?thesis using overflow_limit_large(1) by linarith
qed

lemma fl_not_NaN [simp]: "fl x \<noteq> NaN" "NaN \<noteq> fl x"
  by (simp_all add: fl_def)

lemma byte_value_range: "0 \<le> byte_value w" "byte_value w \<le> 255"
proof -
  have "unat w < 2 ^ 8" using unsigned_less[of w, where 'a = nat] by simp
  then have "unat w \<le> 255" by simp
  then show "byte_value w \<le> 255" unfolding byte_value_def by linarith
  show "0 \<le> byte_value w" unfolding byte_value_def by (rule of_nat_0_le_iff)
qed

lemma byte_value_numeral [simp]:
  "byte_value 0 = 0" "byte_value 1 = 1"
  "byte_value (numeral n) = real (take_bit 8 (numeral n :: nat))"
  by (simp_all add: byte_value_def unsigned_numeral)

lemma array_get_int:
  "array_get xs (Fin (of_int k)) =
     (if 0 \<le> k \<and> nat k < length xs then Some (xs ! nat k) else None)"
  by (auto simp: array_get_def is_integer_def)

lemma array_get_nat:
  "array_get xs (Fin (real i)) = (if i < length xs then Some (xs ! i) else None)"
  using array_get_int[of xs "int i"] by simp

section \<open>Binary64 arithmetic: basic facts\<close>

lemma ulp64_pos [simp]: "0 < ulp64 x"
  by (simp add: ulp64_def zero_less_power_int)

lemma exponent64_ge: "min_exponent \<le> exponent64 x"
  by (simp add: exponent64_def)

lemma log2_bracket:
  assumes "x \<noteq> 0"
  shows "2 powi \<lfloor>log 2 \<bar>x\<bar>\<rfloor> \<le> \<bar>x\<bar>" "\<bar>x\<bar> < 2 powi (\<lfloor>log 2 \<bar>x\<bar>\<rfloor> + 1)"
proof -
  have "0 < \<bar>x\<bar>" using assms by simp
  then have "2 powr real_of_int \<lfloor>log 2 \<bar>x\<bar>\<rfloor> \<le> \<bar>x\<bar> \<and> \<bar>x\<bar> < 2 powr real_of_int (\<lfloor>log 2 \<bar>x\<bar>\<rfloor> + 1)"
    using floor_log_eq_powr_iff[of "\<bar>x\<bar>" 2 "\<lfloor>log 2 \<bar>x\<bar>\<rfloor>"] by simp
  then show "2 powi \<lfloor>log 2 \<bar>x\<bar>\<rfloor> \<le> \<bar>x\<bar>" "\<bar>x\<bar> < 2 powi (\<lfloor>log 2 \<bar>x\<bar>\<rfloor> + 1)"
    by (simp_all only: powr_real_of_int'[of 2, simplified])
qed

lemma floor_log2_eq:
  assumes "2 powi e \<le> \<bar>x\<bar>" "\<bar>x\<bar> < 2 powi (e + 1)"
  shows "\<lfloor>log 2 \<bar>x\<bar>\<rfloor> = e"
proof -
  have "0 < (2::real) powi e" by (simp add: zero_less_power_int)
  then have "0 < \<bar>x\<bar>" using assms(1) by linarith
  moreover have "2 powr real_of_int e \<le> \<bar>x\<bar>" "\<bar>x\<bar> < 2 powr real_of_int (e + 1)"
    using assms by (simp_all only: powr_real_of_int'[of 2, simplified])
  ultimately show ?thesis
    using floor_log_eq_powr_iff[of "\<bar>x\<bar>" 2 e] by simp
qed

lemma exponent64_eq:
  assumes "2 powi e \<le> \<bar>x\<bar>" "\<bar>x\<bar> < 2 powi (e + 1)" "min_exponent \<le> e"
  shows "exponent64 x = e"
  using floor_log2_eq[OF assms(1,2)] assms(3) by (simp add: exponent64_def)

lemma round_half_even_int [simp]: "round_half_even (of_int k) = k"
  by (simp add: round_half_even_def)

lemma round_half_even_ge: "of_int n \<le> y \<Longrightarrow> n \<le> round_half_even y"
proof -
  assume "of_int n \<le> y"
  then have "n \<le> \<lfloor>y\<rfloor>" by (simp add: le_floor_iff)
  then show ?thesis by (auto simp: round_half_even_def Let_def)
qed

lemma round_half_even_le: "y \<le> of_int n \<Longrightarrow> round_half_even y \<le> n"
proof -
  assume a: "y \<le> of_int n"
  show ?thesis
  proof (cases "y = of_int n")
    case True
    then show ?thesis by simp
  next
    case False
    then have "y < of_int n" using a by simp
    then have "\<lfloor>y\<rfloor> < n" by (simp add: floor_less_iff)
    then show ?thesis by (auto simp: round_half_even_def Let_def)
  qed
qed

lemma two_powi_pos [simp]: "0 < (2::real) powi k"
  by (simp add: zero_less_power_int)

lemma two_powi_diff: "(2::real) powi (a - b) = 2 powi a / 2 powi b"
  by (simp add: power_int_diff)

lemma two_powi_add: "(2::real) powi (a + b) = 2 powi a * 2 powi b"
  by (simp add: power_int_add)

lemma two_powi_nat: "0 \<le> k \<Longrightarrow> (2::real) powi k = of_int (2 ^ nat k)"
  by (simp add: power_int_def)

text \<open>A number with at most 53 significant bits and an exponent in range is not rounded.\<close>

lemma round64_exact:
  assumes x: "x = of_int m * 2 powi e"
      and m: "\<bar>m\<bar> < 2 ^ 53"
      and e: "min_exponent - 52 \<le> e"
      and lim: "\<bar>x\<bar> < overflow_limit"
  shows "round64 x = Fin x"
proof (cases "x = 0")
  case True
  then show ?thesis by (simp add: round64_def)
next
  case False
  define E where "E = exponent64 x"
  have le: "E - 52 \<le> e"
  proof (rule ccontr)
    assume "\<not> E - 52 \<le> e"
    then have lt: "e + 53 \<le> E" by simp
    then have "min_exponent < E" using e by simp
    then have E0: "E = \<lfloor>log 2 \<bar>x\<bar>\<rfloor>" unfolding E_def exponent64_def by simp
    have "2 powi E \<le> \<bar>x\<bar>" unfolding E0 by (rule log2_bracket(1)[OF False])
    moreover have "\<bar>x\<bar> < 2 powi (e + 53)"
    proof -
      have "\<bar>real_of_int m\<bar> < 2 ^ 53" using m by (metis of_int_abs of_int_less_numeral_power_cancel_iff)
      then have "\<bar>real_of_int m\<bar> * 2 powi e < 2 ^ 53 * 2 powi e"
        by (intro mult_strict_right_mono) simp_all
      moreover have "(2::real) powi (e + 53) = 2 ^ 53 * 2 powi e"
        by (simp add: two_powi_add)
      ultimately show ?thesis unfolding x by (simp add: abs_mult)
    qed
    moreover have "(2::real) powi (e + 53) \<le> 2 powi E"
      using lt by (intro power_int_increasing) simp_all
    ultimately show False by linarith
  qed
  define j where "j = e - (E - 52)"
  have j: "0 \<le> j" using le by (simp add: j_def)
  have u: "ulp64 x = 2 powi (E - 52)" by (simp add: ulp64_def E_def)
  have "x / 2 powi (E - 52) = of_int m * (2 powi e / 2 powi (E - 52))"
    by (subst x) simp
  then have "x / ulp64 x = of_int m * (2 powi e / 2 powi (E - 52))"
    by (simp only: u)
  also have "2 powi e / 2 powi (E - 52) = (2::real) powi j"
    unfolding j_def by (rule two_powi_diff[symmetric])
  also have "\<dots> = of_int (2 ^ nat j)" using j by (rule two_powi_nat)
  finally have "x / ulp64 x = of_int (m * 2 ^ nat j)" by simp
  then have "round_half_even (x / ulp64 x) = m * 2 ^ nat j"
    by (simp only: round_half_even_int)
  moreover have "of_int (m * 2 ^ nat j) * ulp64 x = x"
    using \<open>x / ulp64 x = of_int (m * 2 ^ nat j)\<close> ulp64_pos[of x]
    by (metis nonzero_divide_eq_eq less_irrefl)
  ultimately show ?thesis
    using False lim by (simp only: round64_def if_False fl_Fin)
qed

lemma round64_int: "\<bar>m\<bar> < 2 ^ 53 \<Longrightarrow> round64 (of_int m) = Fin (of_int m)"
proof -
  assume m: "\<bar>m\<bar> < 2 ^ 53"
  have "\<bar>real_of_int m\<bar> < 2 ^ 53" using m by (metis of_int_abs of_int_less_numeral_power_cancel_iff)
  moreover have "(2::real) ^ 53 < 2 ^ 64" by simp
  ultimately have "\<bar>real_of_int m\<bar> < overflow_limit" using overflow_limit_large(1) by linarith
  moreover have "min_exponent - 52 \<le> 0" by (simp add: min_exponent_def)
  ultimately show ?thesis
    using round64_exact[of "of_int m" m 0] m by simp
qed

subsection \<open>Results of rounding are doubles\<close>

lemma on_grid_iff: "on_grid a \<longleftrightarrow> (\<exists>k::int. a = of_int k * 2 powi (min_exponent - 52))"
proof
  assume "on_grid a"
  then have "of_int \<lfloor>a / 2 powi (min_exponent - 52)\<rfloor> = a / 2 powi (min_exponent - 52)"
    by (simp add: on_grid_def is_integer_def)
  moreover have "a = a / 2 powi (min_exponent - 52) * 2 powi (min_exponent - 52)" by simp
  ultimately have "a = of_int \<lfloor>a / 2 powi (min_exponent - 52)\<rfloor> * 2 powi (min_exponent - 52)"
    by (simp only:)
  then show "\<exists>k::int. a = of_int k * 2 powi (min_exponent - 52)" by blast
next
  assume "\<exists>k::int. a = of_int k * 2 powi (min_exponent - 52)"
  then obtain k :: int where "a = of_int k * 2 powi (min_exponent - 52)" by blast
  then have "a / 2 powi (min_exponent - 52) = of_int k" by simp
  then show "on_grid a" by (simp add: on_grid_def is_integer_def)
qed

lemma on_grid_0 [simp]: "on_grid 0"
  by (simp add: on_grid_def is_integer_def)

lemma on_grid_diff: "on_grid a \<Longrightarrow> on_grid b \<Longrightarrow> on_grid (a - b)"
proof -
  assume "on_grid a" "on_grid b"
  then obtain k l :: int where "a = of_int k * 2 powi (min_exponent - 52)"
    "b = of_int l * 2 powi (min_exponent - 52)" unfolding on_grid_iff by blast
  then have "a - b = of_int (k - l) * 2 powi (min_exponent - 52)" by (simp add: algebra_simps)
  then show ?thesis unfolding on_grid_iff by blast
qed

lemma on_grid_minus: "on_grid a \<Longrightarrow> on_grid (- a)"
  using on_grid_diff[of 0 a] by simp

lemma on_grid_ge: "on_grid a \<Longrightarrow> a \<noteq> 0 \<Longrightarrow> 2 powi (min_exponent - 52) \<le> \<bar>a\<bar>"
proof -
  assume "on_grid a" "a \<noteq> 0"
  then obtain k :: int where k: "a = of_int k * 2 powi (min_exponent - 52)" "k \<noteq> 0"
    unfolding on_grid_iff by auto
  then have "1 \<le> \<bar>real_of_int k\<bar>" by linarith
  then have "1 * 2 powi (min_exponent - 52) \<le> \<bar>real_of_int k\<bar> * 2 powi (min_exponent - 52)"
    by (intro mult_right_mono) simp_all
  then show ?thesis unfolding k(1) by (simp add: abs_mult)
qed

lemma ulp64_grid: "\<exists>j::nat. ulp64 x = of_int (2 ^ j) * 2 powi (min_exponent - 52)"
proof -
  define j where "j = exponent64 x - min_exponent"
  have j: "0 \<le> j" using exponent64_ge[of x] by (simp add: j_def)
  have "exponent64 x - 52 = j + (min_exponent - 52)" by (simp add: j_def)
  then have "ulp64 x = 2 powi j * 2 powi (min_exponent - 52)"
    unfolding ulp64_def by (simp only: two_powi_add)
  then have "ulp64 x = of_int (2 ^ nat j) * 2 powi (min_exponent - 52)"
    using two_powi_nat[OF j] by simp
  then show ?thesis by blast
qed

lemma round64_cases:
  "round64 x = PInf \<or> round64 x = NInf \<or> (\<exists>y. round64 x = Fin y \<and> on_grid y)"
proof (cases "x = 0")
  case True
  then show ?thesis by (simp add: round64_def)
next
  case False
  obtain j :: nat where j: "ulp64 x = of_int (2 ^ j) * 2 powi (min_exponent - 52)"
    using ulp64_grid by blast
  define v where "v = of_int (round_half_even (x / ulp64 x)) * ulp64 x"
  have "v = of_int (round_half_even (x / ulp64 x) * 2 ^ j) * 2 powi (min_exponent - 52)"
    unfolding v_def by (subst j) simp
  then have "on_grid v" unfolding on_grid_iff by blast
  moreover have "round64 x = fl v" using False by (simp add: round64_def v_def)
  ultimately show ?thesis by (auto simp: fl_def)
qed

lemma round64_is_double [simp]: "is_double (round64 x)"
  using round64_cases[of x] by auto

lemma round64_not_NaN [simp]: "round64 x \<noteq> NaN"
  using round64_cases[of x] by auto

text \<open>The rounded value of a number has its sign, from the smallest double on.\<close>

lemma ulp64_le:
  assumes "2 powi (min_exponent - 52) \<le> \<bar>x\<bar>"
  shows "ulp64 x \<le> \<bar>x\<bar>"
proof -
  have "0 < \<bar>x\<bar>" using assms two_powi_pos[of "min_exponent - 52"] by linarith
  then have nz: "x \<noteq> 0" by simp
  show ?thesis
  proof (cases "min_exponent \<le> \<lfloor>log 2 \<bar>x\<bar>\<rfloor>")
    case True
    then have "exponent64 x = \<lfloor>log 2 \<bar>x\<bar>\<rfloor>" by (simp add: exponent64_def)
    then have "ulp64 x = 2 powi (\<lfloor>log 2 \<bar>x\<bar>\<rfloor> - 52)" by (simp add: ulp64_def)
    also have "\<dots> \<le> 2 powi \<lfloor>log 2 \<bar>x\<bar>\<rfloor>" by (intro power_int_increasing) simp_all
    also have "\<dots> \<le> \<bar>x\<bar>" by (rule log2_bracket(1)[OF nz])
    finally show ?thesis .
  next
    case False
    then have "exponent64 x = min_exponent" by (simp add: exponent64_def)
    then show ?thesis using assms by (simp add: ulp64_def)
  qed
qed

lemma round64_positive:
  assumes "2 powi (min_exponent - 52) \<le> x"
  shows "jgt (round64 x) (Fin 0)"
proof -
  have pos: "0 < x" using assms two_powi_pos[of "min_exponent - 52"] by linarith
  then have "ulp64 x \<le> x" using ulp64_le[of x] assms by simp
  then have "1 \<le> x / ulp64 x" by (simp add: pos_le_divide_eq)
  then have "1 \<le> round_half_even (x / ulp64 x)" using round_half_even_ge[of 1] by simp
  then have "1 \<le> real_of_int (round_half_even (x / ulp64 x))" by simp
  then have "0 < real_of_int (round_half_even (x / ulp64 x)) * ulp64 x"
    by (intro mult_pos_pos) simp_all
  then show ?thesis using pos by (auto simp: round64_def fl_def jgt_def)
qed

lemma round64_negative:
  assumes "x \<le> - (2 powi (min_exponent - 52))"
  shows "jlt (round64 x) (Fin 0)"
proof -
  have neg: "x < 0" using assms two_powi_pos[of "min_exponent - 52"] by linarith
  then have "ulp64 x \<le> - x" using ulp64_le[of x] assms by simp
  then have "x / ulp64 x \<le> - 1" by (simp add: pos_divide_le_eq)
  then have "round_half_even (x / ulp64 x) \<le> - 1" using round_half_even_le[of _ "- 1"] by simp
  then have "real_of_int (round_half_even (x / ulp64 x)) \<le> - 1" by linarith
  then have "real_of_int (round_half_even (x / ulp64 x)) * ulp64 x < 0"
    by (intro mult_neg_pos) simp_all
  then show ?thesis
    using neg by (auto simp: round64_def fl_def) (use overflow_limit_pos in linarith)
qed

lemma round64_sign:
  assumes "on_grid x"
  shows "jgt (round64 x) (Fin 0) \<longleftrightarrow> 0 < x"
proof (cases "x = 0")
  case True
  then show ?thesis by (simp add: round64_def jgt_def)
next
  case False
  note g = on_grid_ge[OF assms False]
  show ?thesis
  proof (cases "0 < x")
    case True
    then show ?thesis using round64_positive[of x] g by simp
  next
    case neg: False
    then have "x \<le> - (2 powi (min_exponent - 52))" using g False by linarith
    then have "jlt (round64 x) (Fin 0)" by (rule round64_negative)
    then have "\<not> jgt (round64 x) (Fin 0)"
      by (cases "round64 x") (simp_all add: jgt_def)
    then show ?thesis using neg by simp
  qed
qed

text \<open>Evaluating \<open>round64\<close>: dyadic numbers of at most 53 bits, and a number of known exponent.\<close>

lemma round64_dyadic:
  assumes "x * 2 ^ k \<in> \<int>" "\<bar>x * 2 ^ k\<bar> < 2 ^ 53" "k \<le> 1000"
  shows "round64 x = Fin x"
proof -
  from assms(1) obtain m :: int where m: "x * 2 ^ k = of_int m" by (auto elim: Ints_cases)
  have "\<bar>real_of_int m\<bar> < 2 ^ 53" using assms(2) m by simp
  then have m53: "\<bar>m\<bar> < 2 ^ 53"
    by (metis of_int_abs of_int_less_numeral_power_cancel_iff)
  have x: "x = of_int m * 2 powi (- int k)"
    using m by (simp add: power_int_minus field_simps)
  have "\<bar>x\<bar> * 1 \<le> \<bar>x\<bar> * 2 ^ k" by (intro mult_left_mono) simp_all
  then have "\<bar>x\<bar> \<le> \<bar>x * 2 ^ k\<bar>" by (simp add: abs_mult)
  moreover have "(2::real) ^ 53 < 2 ^ 64" by simp
  ultimately have lim: "\<bar>x\<bar> < overflow_limit"
    using assms(2) overflow_limit_large(1) by linarith
  have "min_exponent - 52 \<le> - int k" using assms(3) by (simp add: min_exponent_def)
  then show ?thesis by (rule round64_exact[OF x m53 _ lim])
qed

lemma round64_whole: "x \<in> \<int> \<Longrightarrow> \<bar>x\<bar> < 2 ^ 53 \<Longrightarrow> round64 x = Fin x"
  using round64_dyadic[of x 0] by simp

lemma round64_at:
  assumes "2 powi e \<le> \<bar>x\<bar>" "\<bar>x\<bar> < 2 powi (e + 1)" "min_exponent \<le> e"
  shows "round64 x = fl (of_int (round_half_even (x / 2 powi (e - 52))) * 2 powi (e - 52))"
proof -
  have "0 < \<bar>x\<bar>" using assms(1) two_powi_pos[of e] by linarith
  then have "x \<noteq> 0" by simp
  then show ?thesis
    by (simp add: round64_def ulp64_def exponent64_eq[OF assms])
qed

text \<open>Multiples of the smallest double, and rounding in the subnormal range.\<close>

lemma round64_zero: "round64 0 = Fin 0"
  by (simp add: round64_def)

lemma min_double_pos: "0 < min_double"
  by (simp add: min_double_def)

lemma min_double_le_1: "min_double \<le> 1"
proof -
  have "(2::real) powi (min_exponent - 52) \<le> 2 powi 0"
    by (intro power_int_increasing) (simp_all add: min_exponent_def)
  then show ?thesis by (simp add: min_double_def)
qed

lemma round64_min_double_multiple:
  assumes "\<bar>m\<bar> < 2 ^ 53"
  shows "round64 (of_int m * min_double) = Fin (of_int m * min_double)"
proof -
  have "\<bar>real_of_int m\<bar> < 2 ^ 53"
    using assms by (metis of_int_abs of_int_less_numeral_power_cancel_iff)
  moreover have "\<bar>real_of_int m * min_double\<bar> \<le> \<bar>real_of_int m\<bar> * 1"
    unfolding abs_mult using min_double_pos min_double_le_1
    by (intro mult_left_mono) simp_all
  moreover have "(2::real) ^ 53 < 2 ^ 64" by simp
  ultimately have "\<bar>real_of_int m * min_double\<bar> < overflow_limit"
    using overflow_limit_large(1) by linarith
  then show ?thesis
    using round64_exact[of "of_int m * min_double" m "min_exponent - 52"] assms
    by (simp add: min_double_def)
qed

lemma round64_subnormal:
  assumes "0 < \<bar>x\<bar>" "\<bar>x\<bar> < 2 * min_double"
  shows "round64 x = fl (of_int (round_half_even (x / min_double)) * min_double)"
proof -
  have nz: "x \<noteq> 0" using assms(1) by simp
  have "(2::real) powi (min_exponent - 52 + 1) = 2 powi (min_exponent - 52) * 2 powi 1"
    by (rule two_powi_add)
  then have "\<bar>x\<bar> < 2 powi (min_exponent - 52 + 1)"
    using assms(2) by (simp add: min_double_def)
  also have "\<dots> \<le> 2 powi min_exponent" by (intro power_int_increasing) simp_all
  finally have "\<bar>x\<bar> < 2 powi min_exponent" .
  moreover have "2 powi \<lfloor>log 2 \<bar>x\<bar>\<rfloor> \<le> \<bar>x\<bar>" by (rule log2_bracket(1)[OF nz])
  ultimately have "(2::real) powi \<lfloor>log 2 \<bar>x\<bar>\<rfloor> < 2 powi min_exponent" by linarith
  then have "\<lfloor>log 2 \<bar>x\<bar>\<rfloor> < min_exponent"
    by (metis linorder_not_less one_le_numeral power_int_increasing)
  then have "exponent64 x = min_exponent" by (simp add: exponent64_def)
  then show ?thesis using nz by (simp add: round64_def ulp64_def min_double_def)
qed

section \<open>TempoAnalyzer: the algorithm of getTempo\<close>

lemma intervals_loop_eq:
  "intervals_loop bt i acc =
     acc @ map (\<lambda>k. sub64 (Fin (bt ! k)) (Fin (bt ! (k - 1)))) [i..<length bt]"
proof (induction bt i acc rule: intervals_loop.induct)
  case (1 bt i acc)
  show ?case
  proof (cases "i < length bt")
    case True
    with "1" show ?thesis
      by (subst intervals_loop.simps) (simp add: upt_conv_Cons)
  next
    case False
    then show ?thesis by (subst intervals_loop.simps) simp
  qed
qed

lemma intervals_loop_consecutive: "intervals_loop bt 1 [] = consecutive_intervals bt"
  unfolding intervals_loop_eq consecutive_intervals_def
  by (rule nth_equalityI) (auto simp: nth_tl)

lemma length_consecutive_intervals: "length (consecutive_intervals ts) = length ts - 1"
  by (simp add: consecutive_intervals_def)

lemma consecutive_intervals_double: "list_all is_double (consecutive_intervals ts)"
  by (auto simp: consecutive_intervals_def sub64_def list_all_iff)

text \<open>
  The comparator \<open>(a, b) => a - b\<close> orders doubles by their position: the difference of two
  different doubles does not round to zero.
\<close>

lemma comparator_jkey:
  assumes "is_double x" "is_double y"
  shows "jgt (sub64 x y) (Fin 0) \<longleftrightarrow> \<not> jkey x \<le> jkey y"
proof (cases x; cases y)
  fix a b
  assume xy: "x = Fin a" "y = Fin b"
  then have "on_grid (a - b)" using assms by (simp add: on_grid_diff)
  then have "jgt (round64 (a - b)) (Fin 0) \<longleftrightarrow> 0 < a - b" by (rule round64_sign)
  then show ?thesis using xy by (auto simp: sub64_def)
qed (use assms in \<open>auto simp: jgt_def sub64_def\<close>)

lemma js_insert_insort:
  "is_double x \<Longrightarrow> list_all is_double ys \<Longrightarrow> js_insert sub64 x ys = insort_key jkey x ys"
  by (induction ys) (auto simp: comparator_jkey)

lemma js_sort_sort_key: "list_all is_double xs \<Longrightarrow> js_sort sub64 xs = sort_key jkey xs"
proof (induction xs)
  case Nil
  then show ?case by (simp add: js_sort_def)
next
  case (Cons x xs)
  then have "js_sort sub64 xs = sort_key jkey xs" by simp
  moreover have "list_all is_double (sort_key jkey xs)"
    using Cons.prems by (simp add: list_all_iff)
  moreover have "is_double x" using Cons.prems by simp
  ultimately show ?case
    using js_insert_insort[of x "sort_key jkey xs"]
    by (simp add: js_sort_def sort_key_def)
qed

lemma quartile_product:
  assumes "n < 2 ^ 32"
  shows "mul64 (Fin (real n)) (Fin 0.25) = Fin (0.25 * real n)"
    and "mul64 (Fin (real n)) (Fin 0.75) = Fin (0.75 * real n)"
proof -
  have n: "real n < 2 ^ 32" using assms by (simp add: of_nat_less_numeral_power_cancel_iff)
  have "real n * 0.25 * 2 ^ 2 = of_int (int n)" by simp
  then have "real n * 0.25 * 2 ^ 2 \<in> \<int>" by (simp only: Ints_of_int)
  moreover have "\<bar>real n * 0.25 * 2 ^ 2\<bar> < 2 ^ 53" using n by simp
  ultimately have "round64 (real n * 0.25) = Fin (real n * 0.25)"
    by (intro round64_dyadic[of _ 2]) simp_all
  then show "mul64 (Fin (real n)) (Fin 0.25) = Fin (0.25 * real n)"
    by (simp add: mult.commute)
  have "real n * 0.75 * 2 ^ 2 = of_int (3 * int n)" by simp
  then have "real n * 0.75 * 2 ^ 2 \<in> \<int>" by (simp only: Ints_of_int)
  moreover have "\<bar>real n * 0.75 * 2 ^ 2\<bar> < 2 ^ 53" using n by simp
  ultimately have "round64 (real n * 0.75) = Fin (real n * 0.75)"
    by (intro round64_dyadic[of _ 2]) simp_all
  then show "mul64 (Fin (real n)) (Fin 0.75) = Fin (0.75 * real n)"
    by (simp add: mult.commute)
qed

lemma quartile_bounds:
  assumes "0 < n" "0 \<le> c" "c < 1"
  shows "0 \<le> \<lfloor>c * real n\<rfloor>" and "nat \<lfloor>c * real n\<rfloor> < n"
proof -
  show "0 \<le> \<lfloor>c * real n\<rfloor>" using assms by simp
  have "c * real n < real n" using assms by simp
  then have "\<lfloor>c * real n\<rfloor> < int n" by linarith
  then show "nat \<lfloor>c * real n\<rfloor> < n" using assms by linarith
qed

lemma getTempo_refines:
  assumes "length (beatTimes s) < 2 ^ 32"
  shows "getTempo s = getTempo_spec (beatTimes s)"
proof (cases "length (beatTimes s) < 4")
  case True
  then show ?thesis by (simp add: getTempo_def getTempo_spec_def)
next
  case False
  define iv where "iv = consecutive_intervals (beatTimes s)"
  define sorted where "sorted = sort_key jkey iv"
  have len: "0 < length sorted" "length sorted < 2 ^ 32"
    using False assms by (auto simp: sorted_def iv_def length_consecutive_intervals)
  have srt: "js_sort sub64 iv = sorted"
    unfolding sorted_def iv_def by (rule js_sort_sort_key) (rule consecutive_intervals_double)
  have q1: "ToNumber (array_get sorted (Math_floor (mul64 (Fin (real (length sorted))) (Fin 0.25))))
            = sorted ! nat \<lfloor>0.25 * real (length sorted)\<rfloor>"
    unfolding quartile_product(1)[OF len(2)] Math_floor.simps
    using quartile_bounds[OF len(1), of "0.25"] by (simp add: array_get_int)
  have q3: "ToNumber (array_get sorted (Math_floor (mul64 (Fin (real (length sorted))) (Fin 0.75))))
            = sorted ! nat \<lfloor>0.75 * real (length sorted)\<rfloor>"
    unfolding quartile_product(2)[OF len(2)] Math_floor.simps
    using quartile_bounds[OF len(1), of "0.75"] by (simp add: array_get_int)
  have fold_sum: "\<And>xs. fold (\<lambda>i sum. add64 sum i) xs (Fin 0) = foldl add64 (Fin 0) xs"
    by (simp add: foldl_conv_fold)
  have "getTempo s = getTempo_spec (beatTimes s)"
    unfolding getTempo_def getTempo_spec_def Let_def intervals_loop_consecutive
    unfolding iv_def[symmetric]
    unfolding srt
    unfolding sorted_def[symmetric]
    unfolding q1 q3
    by (simp only: length_0_conv fold_sum jge_def)
  then show ?thesis .
qed

lemma beatTimes_four:
  "beatTimes (addBeat t4 (addBeat t3 (addBeat t2 (addBeat t1 TempoAnalyzer_new)))) = [t1, t2, t3, t4]"
  by (simp add: addBeat_def TempoAnalyzer_new_def maxHistorySize_def Let_def)

lemma getTempo_spec_steady: "getTempo_spec [0, 500, 1000, 1500] = Fin 120"
  by (simp add: getTempo_spec_def consecutive_intervals_def sub64_def round64_whole Let_def
      negative_zero_quotient_def)

text \<open>
  Beats at 0, 533, 1066 and 1600 ms: the intervals 533, 533 and 534 are all kept, their mean
  \<open>1600 / 3\<close> is rounded up to \<open>4691249611844267 / 2 ^ 43\<close>, and 60000 divided by it is
  rounded to \<open>7916483719987199 / 2 ^ 46\<close>, just below 112.5.
\<close>

lemma mean_uneven: "round64 (1600 / 3) = Fin (4691249611844267 / 2 ^ 43)"
proof -
  have "round64 (1600 / 3) =
          fl (of_int (round_half_even ((1600 / 3) / 2 powi (9 - 52))) * 2 powi (9 - 52))"
    by (rule round64_at) (simp_all add: min_exponent_def)
  also have "(1600 / 3) / 2 powi (9 - 52) = (14073748835532800 / 3 :: real)" by simp
  also have "round_half_even (14073748835532800 / 3) = 4691249611844267"
    by (simp add: round_half_even_def Let_def)
  also have "of_int 4691249611844267 * 2 powi (9 - 52) = (4691249611844267 / 2 ^ 43 :: real)"
    by simp
  finally show ?thesis by (simp add: fl_small)
qed

lemma quotient_uneven:
  "round64 (527765581332480000 / 4691249611844267) = Fin (7916483719987199 / 2 ^ 46)"
proof -
  have "round64 (527765581332480000 / 4691249611844267) =
          fl (of_int (round_half_even ((527765581332480000 / 4691249611844267) / 2 powi (6 - 52)))
              * 2 powi (6 - 52))"
    by (rule round64_at) (simp_all add: min_exponent_def)
  also have "(527765581332480000 / 4691249611844267) / 2 powi (6 - 52)
             = (37138201178561408246973726720000 / 4691249611844267 :: real)" by simp
  also have "round_half_even (37138201178561408246973726720000 / 4691249611844267)
             = 7916483719987199"
    by (simp add: round_half_even_def Let_def)
  also have "of_int 7916483719987199 * 2 powi (6 - 52) = (7916483719987199 / 2 ^ 46 :: real)"
    by simp
  finally show ?thesis by (simp add: fl_small)
qed

lemma getTempo_spec_uneven: "getTempo_spec [0, 533, 1066, 1600] = Fin 112"
proof -
  have h: "round64 (3 / 4) = Fin (3 / 4)" "round64 (9 / 4) = Fin (9 / 4)"
    "round64 (3 / 2) = Fin (3 / 2)" "round64 (1063 / 2) = Fin (1063 / 2)"
    "round64 (1071 / 2) = Fin (1071 / 2)"
    by (rule round64_dyadic[of _ 2]; simp)+
  show ?thesis
    by (simp add: getTempo_spec_def consecutive_intervals_def sub64_def round64_whole Let_def h
        mean_uneven quotient_uneven negative_zero_quotient_def)
qed

text \<open>
  C2. \<open>getTempo\<close> returns 0 with fewer than four stored timestamps; otherwise it forms the
  consecutive intervals, sorts them, reads Q1 and Q3 at \<open>floor(0.25 * len)\<close> and
  \<open>floor(0.75 * len)\<close>, keeps the intervals within 1.5 IQR of the quartiles, returns 0 when
  none is kept and otherwise \<open>round(60000 / mean)\<close>: it computes \<open>getTempo_spec\<close> on every
  history a JavaScript array can hold. After beats at 0, 500, 1000 and 1500 the tempo is
  120; after beats at 0, 533, 1066 and 1600, where the mean and the quotient are rounded,
  it is 112.
\<close>

theorem getTempo_algorithm:
  "(length (beatTimes s) < 4 \<longrightarrow> getTempo s = Fin 0) \<and>
   (length (beatTimes s) < 2 ^ 32 \<longrightarrow> getTempo s = getTempo_spec (beatTimes s)) \<and>
   getTempo (addBeat 1500 (addBeat 1000 (addBeat 500 (addBeat 0 TempoAnalyzer_new)))) = Fin 120 \<and>
   getTempo (addBeat 1600 (addBeat 1066 (addBeat 533 (addBeat 0 TempoAnalyzer_new)))) = Fin 112"
proof -
  have "getTempo (addBeat 1500 (addBeat 1000 (addBeat 500 (addBeat 0 TempoAnalyzer_new))))
        = getTempo_spec [0, 500, 1000, 1500]"
    by (subst getTempo_refines) (simp_all add: beatTimes_four)
  moreover have "getTempo (addBeat 1600 (addBeat 1066 (addBeat 533 (addBeat 0 TempoAnalyzer_new))))
        = getTempo_spec [0, 533, 1066, 1600]"
    by (subst getTempo_refines) (simp_all add: beatTimes_four)
  moreover have "length (beatTimes s) < 4 \<longrightarrow> getTempo s = Fin 0"
    by (simp add: getTempo_def)
  ultimately show ?thesis
    using getTempo_refines[of s] by (simp add: getTempo_spec_steady getTempo_spec_uneven)
qed

theorem getTempo_algorithm_witness:
  "length (beatTimes (addBeat 1000 (addBeat 500 (addBeat 0 TempoAnalyzer_new)))) < 4 \<and>
   getTempo (addBeat 1000 (addBeat 500 (addBeat 0 TempoAnalyzer_new))) = Fin 0 \<and>
   length (beatTimes (addBeat 1600 (addBeat 1066 (addBeat 533 (addBeat 0 TempoAnalyzer_new)))))
     < 2 ^ 32 \<and>
   getTempo (addBeat 1600 (addBeat 1066 (addBeat 533 (addBeat 0 TempoAnalyzer_new))))
     = getTempo_spec [0, 533, 1066, 1600]"
proof -
  have three: "beatTimes (addBeat 1000 (addBeat 500 (addBeat 0 TempoAnalyzer_new))) = [0, 500, 1000]"
    by (simp add: addBeat_def TempoAnalyzer_new_def maxHistorySize_def Let_def)
  show ?thesis
    using getTempo_algorithm[of "addBeat 1000 (addBeat 500 (addBeat 0 TempoAnalyzer_new))"]
      getTempo_algorithm[of "addBeat 1600 (addBeat 1066 (addBeat 533 (addBeat 0 TempoAnalyzer_new)))"]
    by (simp add: beatTimes_four three)
qed

lemma getTempo_spec_same: "getTempo_spec [1000, 1000, 1000, 1000] = PInf"
  by (simp add: getTempo_spec_def consecutive_intervals_def sub64_def round64_whole Let_def
      inf_of_sign_def negative_zero_quotient_def)

text \<open>
  C9. Not every division is guarded: after four beats with the same timestamp every interval
  is 0, all of them survive the filter, their mean is 0, and \<open>getTempo\<close> divides 60000 by it
  and returns \<open>Infinity\<close>.
\<close>

theorem getTempo_unguarded_division:
  "getTempo (addBeat 1000 (addBeat 1000 (addBeat 1000 (addBeat 1000 TempoAnalyzer_new)))) = PInf"
  by (subst getTempo_refines) (simp_all add: beatTimes_four getTempo_spec_same)

text \<open>
  A mean that is \<open>-0\<close>: after a beat at \<open>5e-324\<close> and three beats at 0 the intervals are
  \<open>-5e-324\<close>, 0 and 0, all are kept, and their sum divided by 3 underflows to \<open>-0\<close>; the
  tempo is \<open>-Infinity\<close>.
\<close>

lemma getTempo_spec_negative_zero: "getTempo_spec [min_double, 0, 0, 0] = NInf"
proof -
  note q = min_double_pos
  have r1: "round64 (- min_double) = Fin (- min_double)"
    using round64_min_double_multiple[of "- 1"] by simp
  have r3: "round64 (- (3 * min_double)) = Fin (- (3 * min_double))"
    using round64_min_double_multiple[of "- 3"] by simp
  have p1: "round64 min_double = Fin min_double"
    using round64_min_double_multiple[of 1] by simp
  have p2: "round64 (2 * min_double) = Fin (2 * min_double)"
    using round64_min_double_multiple[of 2] by simp
  have half: "round64 (3 * min_double / 2) = Fin (2 * min_double)"
  proof -
    have "round64 (3 * min_double / 2)
          = fl (of_int (round_half_even (3 * min_double / 2 / min_double)) * min_double)"
      using q by (intro round64_subnormal) simp_all
    also have "3 * min_double / 2 / min_double = 3 / 2" using q by simp
    also have "round_half_even (3 / 2) = 2" by (simp add: round_half_even_def Let_def)
    finally show ?thesis using p2 q min_double_le_1 by (simp add: fl_small)
  qed
  have third: "round64 (- (min_double / 3)) = Fin 0"
  proof -
    have "round64 (- (min_double / 3))
          = fl (of_int (round_half_even (- (min_double / 3) / min_double)) * min_double)"
      using q by (intro round64_subnormal) simp_all
    also have "- (min_double / 3) / min_double = - (1 / 3)" using q by simp
    also have "round_half_even (- (1 / 3)) = 0" by (simp add: round_half_even_def Let_def)
    finally show ?thesis by (simp add: fl_small)
  qed
  have srt: "sort_key jkey [Fin (- min_double), Fin 0, Fin 0] = [Fin (- min_double), Fin 0, Fin 0]"
    using q by (simp add: less_eq_prod_def)
  show ?thesis
    using q
    by (simp add: getTempo_spec_def consecutive_intervals_def sub64_def Let_def r1 r3 p1 p2 half
        third srt negative_zero_quotient_def round64_zero round64_dyadic[of "3 / 4" 2]
        round64_dyadic[of "9 / 4" 2])
qed

lemma getTempo_negative_zero_mean:
  "getTempo (addBeat 0 (addBeat 0 (addBeat 0 (addBeat min_double TempoAnalyzer_new)))) = NInf"
  by (subst getTempo_refines) (simp_all add: beatTimes_four getTempo_spec_negative_zero)

section \<open>BeatDetector\<close>

text \<open>
  C8. Without a frame \<open>detect\<close> returns the zero-valued result that reports no beat, and
  the detector it leaves behind is the detector it was called on.
\<close>

theorem detect_null_frame:
  "detect d None now =
     Some (\<lparr>isBeat = False, energy = Fin 0, info_averageEnergy = Fin 0, delta = Fin 0,
            time = now\<rparr>, d)"
  by (simp add: detect_def)

text \<open>Between two integers the loop ends, having read every key from the first to the last.\<close>

lemma energy_loop_int:
  assumes "- overflow_limit < real_of_int lo" "real_of_int hi + 1 < overflow_limit"
  shows "energy_loop fd (Fin (of_int lo)) (Fin (of_int hi)) (e, tr) =
           Some (fold (\<lambda>i s. jadd s (band_power (typed_get fd i))) (int_keys lo hi) e, tr @ int_keys lo hi)"
  using assms
proof (induction "nat (hi + 1 - lo)" arbitrary: lo e tr)
  case 0
  then have "hi < lo" by simp
  then show ?case
    by (subst energy_loop.simps) (simp add: int_keys_def)
next
  case (Suc n)
  then have le: "lo \<le> hi" by linarith
  have n: "n = nat (hi + 1 - (lo + 1))" using Suc(2) by linarith
  have b1: "- overflow_limit < real_of_int (lo + 1)" using Suc.prems(1) by simp
  have "real_of_int lo + 1 \<le> real_of_int hi + 1" using le by simp
  then have "real_of_int lo + 1 < overflow_limit" using Suc.prems(2) by linarith
  then have step: "jadd (Fin (of_int lo)) (Fin 1) = Fin (of_int (lo + 1))"
    using Suc.prems(1) by (simp add: fl_def)
  have keys: "int_keys lo hi = Fin (of_int lo) # int_keys (lo + 1) hi"
    using le by (simp add: int_keys_def upto_rec1)
  show ?case
    apply (subst energy_loop.simps)
    apply (simp only: read_bin_def Let_def fst_conv snd_conv step)
    apply (subst Suc.hyps(1)[OF n b1 Suc.prems(2)])
    using le by (simp add: keys)
qed

subsection \<open>The band of bins that detect reads\<close>

lemma band_range_safe:
  assumes "safe_indices opts a"
  shows "band_range opts a = (Fin (of_int (lowIndex_of opts a)), Fin (of_int (highIndex_of opts a)))"
proof -
  let ?sr = "sampleRate a"
  have sr: "0 < ?sr" "?sr < overflow_limit" using assms by (auto simp: safe_indices_def)
  have nyq: "jdiv (Fin ?sr) (Fin 2) = Fin (?sr / 2)"
    using sr by (simp add: fl_Fin)
  have quot: "jdiv (jmul (Fin y) (Fin z)) (Fin (?sr / 2)) = Fin (y * z / (?sr / 2))"
    if "\<bar>y * z\<bar> < overflow_limit" "\<bar>y * z / (?sr / 2)\<bar> < 2 ^ 53" for y z
  proof -
    have "\<bar>y * z / (?sr / 2)\<bar> < overflow_limit"
      using that(2) below_limit_53 by linarith
    then show ?thesis using that(1) sr by (simp add: fl_Fin)
  qed
  from assms have c:
    "\<bar>low (frequencyRange opts) * of_int (bufferLength a)\<bar> < overflow_limit"
    "\<bar>high (frequencyRange opts) * of_int (bufferLength a)\<bar> < overflow_limit"
    "\<bar>low (frequencyRange opts) * of_int (bufferLength a) / (?sr / 2)\<bar> < 2 ^ 53"
    "\<bar>high (frequencyRange opts) * of_int (bufferLength a) / (?sr / 2)\<bar> < 2 ^ 53"
    unfolding safe_indices_def by blast+
  note lo = quot[OF c(1) c(3)] and hi = quot[OF c(2) c(4)]
  show ?thesis
    unfolding band_range_def Let_def nyq lo hi lowIndex_of_def highIndex_of_def
    by simp
qed

lemma index_bounds:
  fixes x :: real
  assumes "\<bar>x\<bar> < 2 ^ 53"
  shows "- overflow_limit < real_of_int \<lfloor>x\<rfloor>" "real_of_int \<lceil>x\<rceil> + 1 < overflow_limit"
proof -
  note big = below_limit_53
  have "x - 1 < real_of_int \<lfloor>x\<rfloor>" "real_of_int \<lceil>x\<rceil> < x + 1" by linarith+
  with assms big show "- overflow_limit < real_of_int \<lfloor>x\<rfloor>"
    "real_of_int \<lceil>x\<rceil> + 1 < overflow_limit"
    by linarith+
qed

lemma energy_loop_safe:
  assumes "safe_indices opts a"
  shows "energy_loop fd (Fin (of_int (lowIndex_of opts a))) (Fin (of_int (highIndex_of opts a))) (e, tr)
         = Some (fold (\<lambda>i s. jadd s (band_power (typed_get fd i)))
                   (int_keys (lowIndex_of opts a) (highIndex_of opts a)) e,
                 tr @ int_keys (lowIndex_of opts a) (highIndex_of opts a))"
  using assms unfolding safe_indices_def lowIndex_of_def highIndex_of_def
  by (intro energy_loop_int index_bounds) auto


lemma detect_returns:
  assumes "safe_indices (options d) a"
  shows "\<exists>r. detect d (Some a) now = Some r"
  by (simp add: detect_def band_range_safe[OF assms] energy_loop_safe[OF assms])





subsection \<open>One call and the calls after it\<close>

lemma detect_step:
  assumes "detect d fr now = Some (info, d')"
  shows "options d' = options d" "time info = now"
    "lastBeatTime d' = (if isBeat info then now else lastBeatTime d)"
    "isBeat info \<Longrightarrow> jgt (jsub (Fin now) (Fin (lastBeatTime d)))
                          (Fin (minTimeBetweenBeats (options d)))"
  using assms
  by (auto simp: detect_def track_energy_def Let_def split: option.splits prod.splits)

lemma detect_beat_iff:
  assumes "detect d (Some a) now = Some (info, d')"
  shows "isBeat info \<longleftrightarrow>
           jgt (delta info) (Fin (threshold (options d))) \<and>
           jgt (jsub (Fin now) (Fin (lastBeatTime d))) (Fin (minTimeBetweenBeats (options d)))"
  using assms
  by (auto simp: detect_def track_energy_def Let_def split: option.splits prod.splits)

lemma jgt_fl_mono: "a \<le> b \<Longrightarrow> jgt (fl a) c \<Longrightarrow> jgt (fl b) c"
  by (cases c) (auto simp: jgt_def fl_def split: if_splits)

lemma elapsed_mono:
  "s \<le> s' \<Longrightarrow> jgt (jsub (Fin t) (Fin s')) c \<Longrightarrow> jgt (jsub (Fin t) (Fin s)) c"
  unfolding jsub_def by (simp del: fl_not_NaN) (erule jgt_fl_mono[rotated], simp)

lemma detect_all_Cons:
  assumes "detect_all d ((fr, now) # calls) = Some (infos, d')"
  obtains info d1 infos' where "detect d fr now = Some (info, d1)"
    "detect_all d1 calls = Some (infos', d')" "infos = info # infos'"
  using assms by (auto split: option.splits prod.splits)

lemma detect_all_facts:
  assumes "detect_all d calls = Some (infos, d')"
  shows "options d' = options d \<and> length infos = length calls \<and> map time infos = map snd calls \<and>
         lastBeatTime d' = last_beat_time (lastBeatTime d) infos"
  using assms
proof (induction calls arbitrary: d infos)
  case Nil
  then show ?case by (simp add: last_beat_time_def)
next
  case (Cons c calls)
  obtain fr now where c: "c = (fr, now)" by (cases c)
  from Cons.prems obtain info d1 infos' where
    st: "detect d fr now = Some (info, d1)" and rest: "detect_all d1 calls = Some (infos', d')"
    and infos: "infos = info # infos'"
    unfolding c by (rule detect_all_Cons)
  from Cons.IH[OF rest] detect_step[OF st] show ?case
    by (simp add: infos c last_beat_time_def)
qed

lemma later_beat_after_last:
  assumes "detect_all d calls = Some (infos, d')" "sorted (map snd calls)"
    "\<forall>t \<in> set (map snd calls). lastBeatTime d \<le> t" "j < length calls" "isBeat (infos ! j)"
  shows "jgt (jsub (Fin (snd (calls ! j))) (Fin (lastBeatTime d)))
             (Fin (minTimeBetweenBeats (options d)))"
  using assms
proof (induction calls arbitrary: d infos j)
  case Nil
  then show ?case by simp
next
  case (Cons c calls)
  obtain fr now where c: "c = (fr, now)" by (cases c)
  from Cons.prems(1) obtain info d1 infos' where
    st: "detect d fr now = Some (info, d1)" and rest: "detect_all d1 calls = Some (infos', d')"
    and infos: "infos = info # infos'"
    unfolding c by (rule detect_all_Cons)
  note step = detect_step[OF st]
  show ?case
  proof (cases j)
    case 0
    then show ?thesis using Cons.prems(5) step(4) by (simp add: infos c)
  next
    case (Suc k)
    have srt: "sorted (map snd calls)" using Cons.prems(2) by simp
    have now_le: "\<forall>t \<in> set (map snd calls). now \<le> t" using Cons.prems(2) by (auto simp: c)
    have last_le: "lastBeatTime d \<le> now" using Cons.prems(3) by (simp add: c)
    have d1_le: "\<forall>t \<in> set (map snd calls). lastBeatTime d1 \<le> t"
      using now_le Cons.prems(3) step(3) by (auto simp: c)
    have k: "k < length calls" "isBeat (infos' ! k)"
      using Cons.prems(4,5) Suc by (simp_all add: infos)
    have "jgt (jsub (Fin (snd (calls ! k))) (Fin (lastBeatTime d1)))
              (Fin (minTimeBetweenBeats (options d1)))"
      by (rule Cons.IH[OF rest srt d1_le k])
    moreover have "lastBeatTime d \<le> lastBeatTime d1" using step(3) last_le by simp
    ultimately show ?thesis using step(1) Suc by (simp add: elapsed_mono)
  qed
qed

lemma beats_separated:
  assumes "detect_all d calls = Some (infos, d')" "sorted (map snd calls)"
    "i < j" "j < length calls" "isBeat (infos ! i)" "isBeat (infos ! j)"
  shows "jgt (jsub (Fin (snd (calls ! j))) (Fin (snd (calls ! i))))
             (Fin (minTimeBetweenBeats (options d)))"
  using assms
proof (induction calls arbitrary: d infos i j)
  case Nil
  then show ?case by simp
next
  case (Cons c calls)
  obtain fr now where c: "c = (fr, now)" by (cases c)
  from Cons.prems(1) obtain info d1 infos' where
    st: "detect d fr now = Some (info, d1)" and rest: "detect_all d1 calls = Some (infos', d')"
    and infos: "infos = info # infos'"
    unfolding c by (rule detect_all_Cons)
  note step = detect_step[OF st]
  obtain k where j: "j = Suc k" using Cons.prems(3) by (cases j) auto
  have srt: "sorted (map snd calls)" using Cons.prems(2) by simp
  have k: "k < length calls" "isBeat (infos' ! k)"
    using Cons.prems(4,6) j by (simp_all add: infos)
  show ?case
  proof (cases i)
    case 0
    then have "isBeat info" using Cons.prems(5) by (simp add: infos)
    then have last: "lastBeatTime d1 = now" using step(3) by simp
    have "\<forall>t \<in> set (map snd calls). lastBeatTime d1 \<le> t"
      using Cons.prems(2) by (auto simp: c last)
    from later_beat_after_last[OF rest srt this k]
    show ?thesis using step(1) by (simp add: j 0 c last)
  next
    case (Suc i')
    have "i' < k" "isBeat (infos' ! i')" using Cons.prems(3,5) Suc j by (simp_all add: infos)
    from Cons.IH[OF rest srt this(1) k(1) this(2) k(2)]
    show ?thesis using step(1) by (simp add: j Suc)
  qed
qed

subsection \<open>Frames of one magnitude\<close>

lemma uniform_safe: "safe_indices default_beat_options (uniform_frame w)"
  using overflow_limit_large(1)
  by (simp add: safe_indices_def uniform_frame_def default_beat_options_def)

lemma uniform_indices:
  "lowIndex_of default_beat_options (uniform_frame w) = 2"
  "highIndex_of default_beat_options (uniform_frame w) = 6"
  by (simp_all add: lowIndex_of_def highIndex_of_def uniform_frame_def default_beat_options_def)

declare Math_pow.simps [simp del]

lemma Math_pow_square: "0 \<le> x \<Longrightarrow> x \<le> 1 \<Longrightarrow> Math_pow (Fin x) (Fin 2) = Fin (x\<^sup>2)"
proof -
  assume a: "0 \<le> x" "x \<le> 1"
  then have "x\<^sup>2 \<le> 1" by (simp add: power_le_one)
  then have "fl (x\<^sup>2) = Fin (x\<^sup>2)" by (intro fl_small) (simp add: abs_if)
  then show ?thesis using a by (cases "x = 0") (simp_all add: Math_pow.simps)
qed

lemma band_power_uniform:
  "0 \<le> k \<Longrightarrow> k < 1024 \<Longrightarrow>
   band_power (typed_get (replicate 1024 w) (Fin (of_int k))) = Fin ((byte_value w / 255)\<^sup>2)"
proof -
  assume k: "0 \<le> k" "k < 1024"
  have r: "byte_value w / 255 \<le> 1" "0 \<le> byte_value w / 255"
    using byte_value_range[of w] by simp_all
  then have d: "fl (byte_value w / 255) = Fin (byte_value w / 255)"
    by (intro fl_small) (simp add: abs_if)
  have "typed_get (replicate 1024 w) (Fin (of_int k)) = Some (u8 w)"
    using k by (simp add: typed_get_def array_get_int)
  then show ?thesis
    by (simp add: band_power_def u8_def d Math_pow_square[OF r(2) r(1)])
qed

lemma detect_uniform:
  assumes "options d = default_beat_options"
  shows "detect d (Some (uniform_frame w)) now
           = Some (track_energy d (Fin ((byte_value w / 255)\<^sup>2)) now)"
proof -
  let ?e = "(byte_value w / 255)\<^sup>2"
  have e: "0 \<le> ?e" "?e \<le> 1"
    using byte_value_range[of w] by (simp_all add: power_le_one)
  have keys: "int_keys 2 6 = [Fin 2, Fin 3, Fin 4, Fin 5, Fin 6]"
    by (simp add: int_keys_def upto_rec1)
  have bp: "band_power (typed_get (replicate 1024 w) (Fin (of_int k))) = Fin ?e" if "k \<in> {2,3,4,5,6}" for k
    using that by (intro band_power_uniform) auto
  have bps: "band_power (typed_get (replicate 1024 w) (Fin 2)) = Fin ?e"
    "band_power (typed_get (replicate 1024 w) (Fin 3)) = Fin ?e"
    "band_power (typed_get (replicate 1024 w) (Fin 4)) = Fin ?e"
    "band_power (typed_get (replicate 1024 w) (Fin 5)) = Fin ?e"
    "band_power (typed_get (replicate 1024 w) (Fin 6)) = Fin ?e"
    using bp[of 2] bp[of 3] bp[of 4] bp[of 5] bp[of 6] by simp_all
  have fls: "fl (c * ?e) = Fin (c * ?e)" if "0 \<le> c" "c \<le> 5" for c
  proof -
    have "c * ?e \<le> 5 * 1" using that e by (intro mult_mono) auto
    moreover have "0 \<le> c * ?e" using that e by simp
    ultimately show ?thesis by (intro fl_small) (simp add: abs_if)
  qed
  have sum5: "fold (\<lambda>i s. jadd s (band_power (typed_get (replicate 1024 w) i))) (int_keys 2 6) (Fin 0)
              = Fin (5 * ?e)"
    using fls[of 1] fls[of 2] fls[of 3] fls[of 4] fls[of 5] by (simp add: keys bps)
  have avg: "band_average (Fin 2) (Fin 6) (Fin (5 * ?e)) = Fin ?e"
    using fls[of 1] by (simp add: band_average_def jgt_def jsub_def fl_small)
  have fd: "frequencyData (uniform_frame w) = replicate 1024 w"
    by (simp add: uniform_frame_def)
  show ?thesis
    using energy_loop_safe[OF uniform_safe, of "replicate 1024 w" w "Fin 0" "[]"]
    by (simp add: detect_def assms band_range_safe[OF uniform_safe] uniform_indices sum5 avg fd)
qed

lemma fold_jadd_Fin:
  assumes "0 \<le> s" "\<forall>h \<in> set hs. 0 \<le> h" "s + sum_list hs \<le> 10 ^ 15"
  shows "fold (\<lambda>e sum. jadd sum e) (map Fin hs) (Fin s) = Fin (s + sum_list hs)"
  using assms
proof (induction hs arbitrary: s)
  case Nil
  then show ?case by simp
next
  case (Cons h hs)
  have nn: "0 \<le> sum_list hs" using Cons.prems(2) by (intro sum_list_nonneg) auto
  have h: "0 \<le> h" using Cons.prems(2) by simp
  have "fl (s + h) = Fin (s + h)"
    using Cons.prems nn h by (intro fl_small) (simp add: abs_if)
  moreover have "fold (\<lambda>e sum. jadd sum e) (map Fin hs) (Fin (s + h)) = Fin (s + h + sum_list hs)"
    using Cons.prems h by (intro Cons.IH) (auto simp: add.assoc)
  ultimately show ?case by (simp add: add.assoc)
qed

lemma sum_list_le_length: "\<forall>h \<in> set hs. h \<le> (1::real) \<Longrightarrow> sum_list hs \<le> real (length hs)"
  by (induction hs) auto

lemma track_energy_mk:
  assumes "0 \<le> x" "x \<le> 1" "\<forall>h \<in> set hs. 0 \<le> h \<and> h \<le> 1" "0 \<le> e" "e \<le> 1"
    "length hs \<le> 1000" "\<bar>now - lst\<bar> \<le> 10 ^ 15"
  shows "track_energy (mk_detector x lst hs) (Fin e) now =
     (let hs' = tl (hs @ [e]);
          x' = x * 0.98 + sum_list hs' / 43 * 0.02;
          beat = (0.15 < e - x' \<and> 250 < now - lst)
      in (\<lparr>isBeat = beat, energy = Fin e, info_averageEnergy = Fin x', delta = Fin (e - x'),
           time = now\<rparr>,
          mk_detector x' (if beat then now else lst) hs'))"
proof -
  define hs' where "hs' = tl (hs @ [e])"
  have set_hs': "\<forall>h \<in> set hs'. 0 \<le> h \<and> h \<le> 1"
    using assms(3,4,5) unfolding hs'_def by (cases hs) auto
  have len: "length hs' \<le> 1000" using assms(6) unfolding hs'_def by simp
  have s0: "0 \<le> sum_list hs'" using set_hs' by (intro sum_list_nonneg) auto
  have "sum_list hs' \<le> real (length hs')"
    using set_hs' by (intro sum_list_le_length) auto
  then have s1: "sum_list hs' \<le> 1000" using len by simp
  have hist: "tl (map Fin hs @ [Fin e]) = map Fin hs'"
    unfolding hs'_def by (cases hs) auto
  have fold: "fold (\<lambda>e sum. jadd sum e) (map Fin hs') (Fin 0) = Fin (sum_list hs')"
    using fold_jadd_Fin[of 0 hs'] set_hs' s1 by simp
  define m where "m = sum_list hs' / 43"
  have m: "0 \<le> m" "m \<le> 1000" using s0 s1 by (simp_all add: m_def)
  have wa: "jdiv (Fin (sum_list hs')) (Fin (real historySize)) = Fin m"
    using m by (simp add: historySize_def m_def fl_small abs_if)
  define x' where "x' = x * 0.98 + m * 0.02"
  have x': "0 \<le> x'" "x' \<le> 1000" using assms(1,2) m unfolding x'_def by simp_all
  have p1: "jmul (Fin x) (Fin 0.98) = Fin (x * 0.98)"
    using assms(1,2) by (simp add: fl_small abs_if)
  have p2: "jmul (Fin m) (jsub (Fin 1) (Fin 0.98)) = Fin (m * 0.02)"
    using m by (simp add: jsub_def fl_small abs_if)
  have p3: "jadd (Fin (x * 0.98)) (Fin (m * 0.02)) = Fin x'"
    using x' by (simp add: x'_def fl_small abs_if)
  have p4: "jsub (Fin e) (Fin x') = Fin (e - x')"
    using x' assms(4,5) by (simp add: jsub_def fl_small abs_if)
  have p5: "jsub (Fin now) (Fin lst) = Fin (now - lst)"
    using assms(7) by (simp add: jsub_def fl_small)
  show ?thesis
    unfolding track_energy_def mk_detector_def Let_def
    apply (simp only: BeatDetector.simps hist fold wa)
    apply (simp only: default_beat_options_def BeatDetectorOptions.simps p1 p2 p3 p4 p5)
    apply (simp add: jgt_def hs'_def x'_def m_def)
    done
qed

lemma new_mk: "BeatDetector_new default_beat_options = mk_detector 0 0 (replicate 43 0)"
  by (simp add: BeatDetector_new_def mk_detector_def historySize_def)

lemma options_mk [simp]: "options (mk_detector x l hs) = default_beat_options"
  by (simp add: mk_detector_def)

lemma lastBeatTime_mk [simp]: "lastBeatTime (mk_detector x l hs) = l"
  by (simp add: mk_detector_def)

lemma sum_list_le_bound:
  "\<forall>h \<in> set hs. h \<le> (M::real) \<Longrightarrow> sum_list hs \<le> real (length hs) * M"
  by (induction hs) (auto simp: algebra_simps)

lemma uniform_step:
  assumes x: "0 \<le> x" "x \<le> B" and hs: "\<forall>h \<in> set hs. 0 \<le> h \<and> h \<le> M" "length hs = 43"
    and e: "e = (byte_value w / 255)\<^sup>2" "e \<le> M" and M: "M \<le> 1" "B \<le> 1"
    and t: "\<bar>now - lst\<bar> \<le> 10 ^ 15"
  obtains x' hs' info where
    "detect (mk_detector x lst hs) (Some (uniform_frame w)) now
       = Some (info, mk_detector x' (if isBeat info then now else lst) hs')"
    "0 \<le> x'" "x' \<le> 0.98 * B + 0.02 * M" "\<forall>h \<in> set hs'. 0 \<le> h \<and> h \<le> M" "length hs' = 43"
    "isBeat info \<longleftrightarrow> 0.15 < e - x' \<and> 250 < now - lst"
proof -
  define hs' where "hs' = tl (hs @ [e])"
  define x' where "x' = x * 0.98 + sum_list hs' / 43 * 0.02"
  define beat where "beat \<longleftrightarrow> 0.15 < e - x' \<and> 250 < now - lst"
  define info where "info = \<lparr>isBeat = beat, energy = Fin e, info_averageEnergy = Fin x',
     delta = Fin (e - x'), time = now\<rparr>"
  have e0: "0 \<le> e" unfolding e(1) by simp
  have hs1: "\<forall>h \<in> set hs. 0 \<le> h \<and> h \<le> 1" using hs(1) M(1) by auto
  have set_hs': "\<forall>h \<in> set hs'. 0 \<le> h \<and> h \<le> M"
    using hs(1) e0 e(2) unfolding hs'_def by (cases hs) auto
  have len': "length hs' = 43" using hs(2) unfolding hs'_def by simp
  have s0: "0 \<le> sum_list hs'" using set_hs' by (intro sum_list_nonneg) auto
  have s1: "sum_list hs' \<le> 43 * M" using sum_list_le_bound[of hs' M] set_hs' len' by simp
  have x'0: "0 \<le> x'" using x(1) s0 unfolding x'_def by simp
  have "x * 0.98 \<le> B * 0.98" using x(2) by simp
  moreover have "sum_list hs' / 43 * 0.02 \<le> M * 0.02" using s1 by simp
  ultimately have x'1: "x' \<le> 0.98 * B + 0.02 * M" unfolding x'_def by simp
  have "detect (mk_detector x lst hs) (Some (uniform_frame w)) now
          = Some (track_energy (mk_detector x lst hs) (Fin e) now)"
    unfolding e(1) by (rule detect_uniform) simp
  also have "track_energy (mk_detector x lst hs) (Fin e) now
          = (info, mk_detector x' (if beat then now else lst) hs')"
    using x M hs1 hs(2) e0 e(2) t
    by (subst track_energy_mk) (auto simp: Let_def info_def beat_def x'_def hs'_def)
  finally have "detect (mk_detector x lst hs) (Some (uniform_frame w)) now
       = Some (info, mk_detector x' (if isBeat info then now else lst) hs')"
    by (simp add: info_def)
  moreover have "isBeat info \<longleftrightarrow> 0.15 < e - x' \<and> 250 < now - lst"
    by (simp add: info_def beat_def)
  ultimately show thesis using that x'0 x'1 set_hs' len' by blast
qed

lemma energies: "quiet_energy = 361 / 7225" "spike_energy = 144 / 289"
  by (simp_all add: quiet_energy_def spike_energy_def power2_eq_square)

lemma quiet_run:
  assumes "0 \<le> x" "x \<le> quiet_energy" "\<forall>h \<in> set hs. 0 \<le> h \<and> h \<le> quiet_energy"
    "length hs = 43" "\<forall>t \<in> set ts. \<bar>t\<bar> \<le> 10 ^ 14" "\<bar>lst\<bar> \<le> 10 ^ 14"
  shows "\<exists>infos x' hs'.
           detect_all (mk_detector x lst hs) (map (\<lambda>t. (Some (uniform_frame 57), t)) ts)
             = Some (infos, mk_detector x' lst hs') \<and>
           map isBeat infos = replicate (length ts) False \<and>
           0 \<le> x' \<and> x' \<le> quiet_energy \<and> (\<forall>h \<in> set hs'. 0 \<le> h \<and> h \<le> quiet_energy) \<and>
           length hs' = 43"
  using assms
proof (induction ts arbitrary: x hs)
  case Nil
  then show ?case by auto
next
  case (Cons t ts)
  have q1: "quiet_energy \<le> 1" by (simp add: energies)
  have tb: "\<bar>t - lst\<bar> \<le> 10 ^ 15" using Cons.prems(5,6) by auto
  obtain x1 hs1 info where
    st: "detect (mk_detector x lst hs) (Some (uniform_frame 57)) t
           = Some (info, mk_detector x1 (if isBeat info then t else lst) hs1)"
    and b: "0 \<le> x1" "x1 \<le> 0.98 * quiet_energy + 0.02 * quiet_energy"
      "\<forall>h \<in> set hs1. 0 \<le> h \<and> h \<le> quiet_energy" "length hs1 = 43"
    and beat: "isBeat info \<longleftrightarrow> 0.15 < quiet_energy - x1 \<and> 250 < t - lst"
    using uniform_step[OF Cons.prems(1,2,3,4) quiet_energy_def order_refl q1 q1 tb] by metis
  have nb: "\<not> isBeat info" using beat b(1) by (simp add: energies)
  have x1: "x1 \<le> quiet_energy" using b(2) by simp
  from Cons.IH[OF b(1) x1 b(3,4)] Cons.prems(5,6)
  obtain infos x' hs' where
    rest: "detect_all (mk_detector x1 lst hs1) (map (\<lambda>t. (Some (uniform_frame 57), t)) ts)
             = Some (infos, mk_detector x' lst hs')"
    and r: "map isBeat infos = replicate (length ts) False" "0 \<le> x'" "x' \<le> quiet_energy"
      "\<forall>h \<in> set hs'. 0 \<le> h \<and> h \<le> quiet_energy" "length hs' = 43"
    by auto
  show ?case
    using st nb rest r by simp blast
qed

lemma detect_all_append:
  "detect_all d (xs @ ys) =
     (case detect_all d xs of
        None \<Rightarrow> None
      | Some (infos, d1) \<Rightarrow>
         (case detect_all d1 ys of
            None \<Rightarrow> None
          | Some (infos', d2) \<Rightarrow> Some (infos @ infos', d2)))"
  by (induction xs arbitrary: d) (auto split: option.splits prod.splits)

lemma upt43_times: "\<forall>t \<in> set (map (\<lambda>k. 1000 + 16 * real k) [0..<43]). \<bar>t\<bar> \<le> 10 ^ 14"
proof -
  have "\<bar>1000 + 16 * real k\<bar> \<le> 10 ^ 14" if "k < 43" for k
  proof -
    have "real k \<le> 43" using that by simp
    then show ?thesis by (simp add: abs_if)
  qed
  then show ?thesis by auto
qed

lemma spike_step:
  assumes "0 \<le> x" "x \<le> B" "B \<le> 0.1" "\<forall>h \<in> set hs. 0 \<le> h \<and> h \<le> spike_energy"
    "length hs = 43" "\<bar>now - lst\<bar> \<le> 10 ^ 15"
  obtains x' hs' info where
    "detect (mk_detector x lst hs) (Some (uniform_frame 180)) now
       = Some (info, mk_detector x' (if 250 < now - lst then now else lst) hs')"
    "isBeat info \<longleftrightarrow> 250 < now - lst"
    "0 \<le> x'" "x' \<le> 0.98 * B + 0.02 * spike_energy"
    "\<forall>h \<in> set hs'. 0 \<le> h \<and> h \<le> spike_energy" "length hs' = 43"
proof -
  have s1: "spike_energy \<le> 1" and B1: "B \<le> 1" using assms(3) by (simp_all add: energies)
  obtain x' hs' info where
    st: "detect (mk_detector x lst hs) (Some (uniform_frame 180)) now
           = Some (info, mk_detector x' (if isBeat info then now else lst) hs')"
    and b: "0 \<le> x'" "x' \<le> 0.98 * B + 0.02 * spike_energy"
      "\<forall>h \<in> set hs'. 0 \<le> h \<and> h \<le> spike_energy" "length hs' = 43"
    and beat: "isBeat info \<longleftrightarrow> 0.15 < spike_energy - x' \<and> 250 < now - lst"
    using uniform_step[OF assms(1,2,4,5) spike_energy_def order_refl s1 B1 assms(6)] by metis
  have "x' \<le> 0.98 * 0.1 + 0.02 * spike_energy" using b(2) assms(3) by simp
  then have "0.15 < spike_energy - x'" by (simp add: energies)
  then have beat': "isBeat info \<longleftrightarrow> 250 < now - lst" using beat by simp
  show thesis using that[OF _ beat' b] st beat' by simp
qed

lemma refractory_scenario:
  "map_option (map isBeat \<circ> fst)
     (detect_all (BeatDetector_new default_beat_options) (quiet_calls @ spike_calls))
   = Some (replicate 43 False @ [True, False, True])"
proof -
  have qc: "quiet_calls = map (\<lambda>t. (Some (uniform_frame 57), t))
                             (map (\<lambda>k. 1000 + 16 * real k) [0..<43])"
    by (simp add: quiet_calls_def)
  have q0: "0 \<le> quiet_energy" "quiet_energy \<le> spike_energy" "quiet_energy \<le> 0.1"
    by (simp_all add: energies)
  obtain infos xq hq where
    quiet: "detect_all (mk_detector 0 0 (replicate 43 0)) quiet_calls
              = Some (infos, mk_detector xq 0 hq)"
    and fq: "map isBeat infos = replicate 43 False"
    and bq: "0 \<le> xq" "xq \<le> quiet_energy" "\<forall>h \<in> set hq. 0 \<le> h \<and> h \<le> quiet_energy"
      "length hq = 43"
    using quiet_run[of 0 "replicate 43 0" "map (\<lambda>k. 1000 + 16 * real k) [0..<43]" 0]
      upt43_times q0(1)
    unfolding qc by auto
  have hq: "\<forall>h \<in> set hq. 0 \<le> h \<and> h \<le> spike_energy" using bq(3) q0(2) by auto
  have t1: "\<bar>2000 - (0::real)\<bar> \<le> 10 ^ 15" by simp
  obtain x1 h1 i1 where
    s1: "detect (mk_detector xq 0 hq) (Some (uniform_frame 180)) 2000
           = Some (i1, mk_detector x1 (if 250 < 2000 - (0::real) then 2000 else 0) h1)"
    and f1: "isBeat i1 \<longleftrightarrow> 250 < 2000 - (0::real)"
    and b1: "0 \<le> x1" "x1 \<le> 0.98 * quiet_energy + 0.02 * spike_energy"
      "\<forall>h \<in> set h1. 0 \<le> h \<and> h \<le> spike_energy" "length h1 = 43"
    by (rule spike_step[OF bq(1,2) q0(3) hq bq(4) t1])
  have B1: "0.98 * quiet_energy + 0.02 * spike_energy \<le> 0.1" by (simp add: energies)
  have t2: "\<bar>2100 - (2000::real)\<bar> \<le> 10 ^ 15" by simp
  obtain x2 h2 i2 where
    s2: "detect (mk_detector x1 2000 h1) (Some (uniform_frame 180)) 2100
           = Some (i2, mk_detector x2 (if 250 < 2100 - (2000::real) then 2100 else 2000) h2)"
    and f2: "isBeat i2 \<longleftrightarrow> 250 < 2100 - (2000::real)"
    and b2: "0 \<le> x2" "x2 \<le> 0.98 * (0.98 * quiet_energy + 0.02 * spike_energy) + 0.02 * spike_energy"
      "\<forall>h \<in> set h2. 0 \<le> h \<and> h \<le> spike_energy" "length h2 = 43"
    by (rule spike_step[OF b1(1,2) B1 b1(3,4) t2])
  have B2: "0.98 * (0.98 * quiet_energy + 0.02 * spike_energy) + 0.02 * spike_energy \<le> 0.1"
    by (simp add: energies)
  have t3: "\<bar>2400 - (2000::real)\<bar> \<le> 10 ^ 15" by simp
  obtain x3 h3 i3 where
    s3: "detect (mk_detector x2 2000 h2) (Some (uniform_frame 180)) 2400
           = Some (i3, mk_detector x3 (if 250 < 2400 - (2000::real) then 2400 else 2000) h3)"
    and f3: "isBeat i3 \<longleftrightarrow> 250 < 2400 - (2000::real)"
    by (rule spike_step[OF b2(1,2) B2 b2(3,4) t3])
  have spikes: "detect_all (mk_detector xq 0 hq) spike_calls
                  = Some ([i1, i2, i3], mk_detector x3 2400 h3)"
    using s1 s2 s3 by (simp add: spike_calls_def)
  show ?thesis
    using quiet spikes fq f1 f2 f3
    by (simp add: new_mk detect_all_append)
qed

subsection \<open>The refractory window over a sequence of calls\<close>

text \<open>
  C5. A call with a frame reports a beat exactly when \<open>delta\<close> exceeds the threshold and
  the time since \<open>lastBeatTime\<close> exceeds \<open>minTimeBetweenBeats\<close>, and a reported beat moves
  \<open>lastBeatTime\<close> to the time of the call; the call returns whenever the band indices are
  safe integers. Over a sequence of calls \<open>lastBeatTime\<close> is the time of the last reported
  beat (its initial value while there is none), and with non-decreasing times two calls
  that both report a beat are more than \<open>minTimeBetweenBeats\<close> apart. In the scenario of 43
  quiet frames and three spikes, the spike 100 ms after the first is not reported and the
  one 400 ms after is: exactly two beats.
\<close>

theorem refractory_window:
  "(detect d (Some a) now = Some (info, d1) \<longrightarrow>
      (isBeat info \<longleftrightarrow>
         jgt (delta info) (Fin (threshold (options d))) \<and>
         jgt (jsub (Fin now) (Fin (lastBeatTime d))) (Fin (minTimeBetweenBeats (options d)))) \<and>
      lastBeatTime d1 = (if isBeat info then now else lastBeatTime d)) \<and>
   (safe_indices (options d) a \<longrightarrow> (\<exists>r. detect d (Some a) now = Some r)) \<and>
   (detect_all d calls = Some (infos, d') \<longrightarrow>
      lastBeatTime d' = last_beat_time (lastBeatTime d) infos \<and>
      (sorted (map snd calls) \<and> i < j \<and> j < length calls \<and> isBeat (infos ! i) \<and> isBeat (infos ! j)
        \<longrightarrow> jgt (jsub (Fin (snd (calls ! j))) (Fin (snd (calls ! i))))
                 (Fin (minTimeBetweenBeats (options d))))) \<and>
   map_option (map isBeat \<circ> fst)
     (detect_all (BeatDetector_new default_beat_options) (quiet_calls @ spike_calls))
     = Some (replicate 43 False @ [True, False, True])"
  using detect_beat_iff[of d a now info d1] detect_step(3)[of d "Some a" now info d1]
    detect_returns[of d a now] detect_all_facts[of d calls infos d']
    beats_separated[of d calls infos d' i j] refractory_scenario
  by blast

lemma scenario_sorted: "sorted (map snd (quiet_calls @ spike_calls))"
proof -
  have q: "map snd quiet_calls = map (\<lambda>k. 1000 + 16 * real k) [0..<43]"
    by (simp add: quiet_calls_def comp_def)
  have "sorted_wrt (\<lambda>x y. 1000 + 16 * real x \<le> 1000 + 16 * real y) [0..<43]"
    by (rule sorted_wrt_mono_rel[OF _ sorted_wrt_upt]) simp
  then have sq: "sorted (map snd quiet_calls)" unfolding q by (simp add: sorted_map)
  have le: "t \<le> 2000" if "t \<in> set (map snd quiet_calls)" for t
  proof -
    from that obtain k where "k < 43" "t = 1000 + 16 * real k" unfolding q by auto
    then show ?thesis by simp
  qed
  have "\<forall>x \<in> set (map snd quiet_calls). \<forall>y \<in> set (map snd spike_calls). x \<le> y"
    using le by (fastforce simp: spike_calls_def)
  then show ?thesis using sq by (simp add: sorted_append) (simp add: spike_calls_def)
qed

lemma scenario_nth:
  "length (quiet_calls @ spike_calls) = 46"
  "snd ((quiet_calls @ spike_calls) ! 43) = 2000"
  "snd ((quiet_calls @ spike_calls) ! 45) = 2400"
  by (simp_all add: nth_append quiet_calls_def spike_calls_def)

theorem refractory_window_witness:
  "safe_indices (options (BeatDetector_new default_beat_options)) (uniform_frame 180) \<and>
   (\<exists>r. detect (BeatDetector_new default_beat_options) (Some (uniform_frame 180)) 2000 = Some r) \<and>
   (\<exists>infos d'.
      detect_all (BeatDetector_new default_beat_options) (quiet_calls @ spike_calls)
        = Some (infos, d') \<and>
      sorted (map snd (quiet_calls @ spike_calls)) \<and>
      isBeat (infos ! 43) \<and> isBeat (infos ! 45) \<and>
      lastBeatTime d' = last_beat_time 0 infos \<and>
      jgt (jsub (Fin 2400) (Fin 2000)) (Fin 250))"
proof -
  let ?d = "BeatDetector_new default_beat_options"
  have opts: "options ?d = default_beat_options" by (simp add: BeatDetector_new_def)
  have safe: "safe_indices (options ?d) (uniform_frame 180)"
    unfolding opts by (rule uniform_safe)
  obtain infos d' where run: "detect_all ?d (quiet_calls @ spike_calls) = Some (infos, d')"
    and flags: "map isBeat infos = replicate 43 False @ [True, False, True]"
    using refractory_scenario by (auto simp: map_option_case split: option.splits)
  have len: "length infos = 46" using arg_cong[OF flags, of length] by simp
  have b: "isBeat (infos ! 43)" "isBeat (infos ! 45)"
    using arg_cong[OF flags, of "\<lambda>xs. xs ! 43"] arg_cong[OF flags, of "\<lambda>xs. xs ! 45"] len
    by (simp_all add: nth_append)
  note w = refractory_window[of ?d "uniform_frame 180" 2000 _ _ "quiet_calls @ spike_calls"
      infos d' 43 45]
  have ret: "\<exists>r. detect ?d (Some (uniform_frame 180)) 2000 = Some r"
    using w safe by blast
  have idx: "(43::nat) < 45" "45 < length (quiet_calls @ spike_calls)"
    unfolding scenario_nth(1) by simp_all
  have "lastBeatTime d' = last_beat_time (lastBeatTime ?d) infos \<and>
        jgt (jsub (Fin (snd ((quiet_calls @ spike_calls) ! 45)))
                  (Fin (snd ((quiet_calls @ spike_calls) ! 43))))
            (Fin (minTimeBetweenBeats (options ?d)))"
    using w run scenario_sorted b idx by blast
  then have sep: "lastBeatTime d' = last_beat_time 0 infos"
    "jgt (jsub (Fin 2400) (Fin 2000)) (Fin 250)"
    by (simp_all add: scenario_nth(2,3) default_beat_options_def BeatDetector_new_def)
  show ?thesis
    using safe ret run scenario_sorted b sep by blast
qed

subsection \<open>The bins that detect reads and the energy it returns\<close>



















section \<open>processAudioData\<close>

lemma typed_get_nat:
  "typed_get xs (Fin (real i)) = (if i < length xs then Some (u8 (xs ! i)) else None)"
  by (simp add: typed_get_def array_get_nat)

lemma array_get_literal:
  "array_get xs (Fin 0) = (if 0 < length xs then Some (xs ! 0) else None)"
  "array_get xs (Fin 1) = (if 1 < length xs then Some (xs ! 1) else None)"
  "array_get xs (Fin (numeral n)) =
     (if numeral n < length xs then Some (xs ! numeral n) else None)"
  using array_get_nat[of xs 0] array_get_nat[of xs 1] array_get_nat[of xs "numeral n"]
  by simp_all

lemma typed_get_literal:
  "typed_get xs (Fin 0) = (if 0 < length xs then Some (u8 (xs ! 0)) else None)"
  "typed_get xs (Fin 1) = (if 1 < length xs then Some (u8 (xs ! 1)) else None)"
  "typed_get xs (Fin (numeral n)) =
     (if numeral n < length xs then Some (u8 (xs ! numeral n)) else None)"
  by (simp_all add: typed_get_def array_get_literal)

text \<open>
  C1, as stated, fails: for a frame with one magnitude and no time-domain sample
  \<open>processAudioData\<close> returns a result (with a NaN sample and a NaN volume), not an error.
\<close>

theorem processAudioData_mismatched:
  "processAudioData mismatched_frame default_options =
     Inr \<lparr>out_frequencyData = [Some (Fin 1)], out_timeData = [NaN], volume = NaN,
          peakLevel = Fin (1 / 51), isActive = False,
          dominant = \<lparr>frequency = Fin 0, amplitude = Fin (1 / 51), index = 0\<rparr>\<rparr>"
  by (simp add: processAudioData_def mismatched_frame_def default_options_def new_Array_def
      Let_def max_step_def typed_get_literal u8_def normalizedValue_def normalize_bin_def jgt_def
      jsub_def fl_small)

text \<open>
  C3, as stated, fails: with both arrays all zero the waveform sits at \<open>-1\<close>, the volume
  is 1 and the frame is active.
\<close>

theorem processAudioData_all_zero:
  "processAudioData zero_frame default_options =
     Inr \<lparr>out_frequencyData = [Some (Fin 0)], out_timeData = [Fin (- 1)], volume = Fin 1,
          peakLevel = Fin 0, isActive = True,
          dominant = \<lparr>frequency = Fin 0, amplitude = Fin 0, index = 0\<rparr>\<rparr>"
  by (simp add: processAudioData_def zero_frame_def default_options_def new_Array_def
      Let_def max_step_def typed_get_literal u8_def normalizedValue_def normalize_bin_def jgt_def
      jsub_def fl_small)

text \<open>
  C6, as stated, fails on silence: the maximum raw magnitude is 0, normalisation is skipped,
  and the bin that holds the maximum (bin 0) stays 0 instead of mapping to 1.
\<close>

theorem processAudioData_silent:
  "processAudioData silent_frame default_options =
     Inr \<lparr>out_frequencyData = [Some (Fin 0)], out_timeData = [Fin 0], volume = Fin 0,
          peakLevel = Fin 0, isActive = False,
          dominant = \<lparr>frequency = Fin 0, amplitude = Fin 0, index = 0\<rparr>\<rparr>"
  by (simp add: processAudioData_def silent_frame_def default_options_def new_Array_def
      Let_def max_step_def typed_get_literal u8_def normalizedValue_def normalize_bin_def jgt_def
      jsub_def fl_small)

lemma fl_range: "0 \<le> x \<Longrightarrow> x \<le> c \<Longrightarrow> c \<le> 10 ^ 15 \<Longrightarrow> fl x = Fin x"
  by (intro fl_small) (simp add: abs_if)

lemma new_Array_nat: "n < 2 ^ 32 \<Longrightarrow> new_Array (int n) = Inr n"
proof -
  assume "n < 2 ^ 32"
  then have "int n < 2 ^ 32" by (metis of_nat_less_iff of_nat_numeral of_nat_power)
  then show ?thesis by (simp add: new_Array_def)
qed

lemma new_Array_valid: "0 \<le> k \<Longrightarrow> k < 2 ^ 32 \<Longrightarrow> new_Array k = Inr (nat k)"
  by (simp add: new_Array_def)

lemma processAudioData_result:
  assumes "0 \<le> bufferLength a" "bufferLength a < 2 ^ 32"
  shows "processAudioData a opts =
    Inr (let n = nat (bufferLength a);
             normalizing = (case opt_normalize opts of None \<Rightarrow> True | Some b \<Rightarrow> b);
             logarithmic = (case opt_logarithmic opts of None \<Rightarrow> False | Some b \<Rightarrow> b);
             raw = map (\<lambda>i. typed_get (frequencyData a) (Fin (real i))) [0..<n];
             scan = fold (max_step (frequencyData a)) [0..<n] (Fin 0, 0);
             times = map (normalizedValue (timeData a)) [0..<n];
             vol = jdiv (fold (\<lambda>v sum. jadd sum (Math_abs v)) times (Fin 0))
                        (Fin (of_int (bufferLength a)))
         in \<lparr>out_frequencyData =
                (if normalizing \<and> jgt (fst scan) (Fin 0)
                 then map (normalize_bin logarithmic (fst scan)) raw else raw),
              out_timeData = times,
              volume = vol,
              peakLevel = jdiv (fst scan) (Fin 255),
              isActive = jgt vol (Fin 0.05),
              dominant = \<lparr>frequency = jdiv (jmul (Fin (real (snd scan)))
                                                   (jdiv (Fin (sampleRate a)) (Fin 2)))
                                             (Fin (of_int (bufferLength a))),
                           amplitude = jdiv (fst scan) (Fin 255),
                           index = snd scan\<rparr>\<rparr>)"
  unfolding processAudioData_def new_Array_valid[OF assms]
  by (simp add: Let_def case_prod_unfold del: jdiv.simps jmul.simps)

text \<open>The scan for the maximum over the first \<open>n\<close> bins.\<close>

lemma max_scan:
  assumes "n \<le> length fd"
  shows "\<exists>m k. fold (max_step fd) [0..<n] (Fin 0, 0) = (Fin m, k) \<and> 0 \<le> m \<and>
               (\<forall>i<n. byte_value (fd ! i) \<le> m) \<and>
               ((m = 0 \<and> k = 0) \<or> (k < n \<and> byte_value (fd ! k) = m \<and> 0 < m))"
  using assms
proof (induction n)
  case 0
  then show ?case by simp
next
  case (Suc n)
  then obtain m k where scan: "fold (max_step fd) [0..<n] (Fin 0, 0) = (Fin m, k)"
    and m: "0 \<le> m" "\<forall>i<n. byte_value (fd ! i) \<le> m"
      "(m = 0 \<and> k = 0) \<or> (k < n \<and> byte_value (fd ! k) = m \<and> 0 < m)"
    by auto
  have tg: "typed_get fd (Fin (real n)) = Some (Fin (byte_value (fd ! n)))"
    using Suc.prems by (simp add: typed_get_nat u8_def)
  show ?case
  proof (cases "m < byte_value (fd ! n)")
    case True
    then have "fold (max_step fd) [0..<Suc n] (Fin 0, 0) = (Fin (byte_value (fd ! n)), n)"
      by (simp add: scan max_step_def tg jgt_def)
    moreover have "\<forall>i<Suc n. byte_value (fd ! i) \<le> byte_value (fd ! n)"
      using m(2) True by (auto simp: less_Suc_eq)
    ultimately show ?thesis using True m(1) by auto
  next
    case False
    then have "fold (max_step fd) [0..<Suc n] (Fin 0, 0) = (Fin m, k)"
      by (simp add: scan max_step_def tg jgt_def)
    moreover have "\<forall>i<Suc n. byte_value (fd ! i) \<le> m"
      using m(2) False by (auto simp: less_Suc_eq)
    ultimately show ?thesis using m(1,3) by auto
  qed
qed

lemma raw_bins:
  "n \<le> length fd \<Longrightarrow>
   map (\<lambda>i. typed_get fd (Fin (real i))) [0..<n] = map (\<lambda>w. Some (Fin (byte_value w))) (take n fd)"
  by (rule nth_equalityI) (simp_all add: typed_get_nat u8_def)

lemma normalize_bin_linear:
  assumes "0 \<le> v" "v \<le> m" "0 < m"
  shows "normalize_bin False (Fin m) (Some (Fin v)) = Some (Fin (v / m))"
    and "0 \<le> v / m" and "v / m \<le> 1"
proof -
  show b: "0 \<le> v / m" "v / m \<le> 1" using assms by simp_all
  then have "fl (v / m) = Fin (v / m)" by (intro fl_small) (simp add: abs_if)
  then show "normalize_bin False (Fin m) (Some (Fin v)) = Some (Fin (v / m))"
    using assms by (simp add: normalize_bin_def)
qed

lemma log_scale_range:
  assumes "0 \<le> x" "x \<le> 1"
  shows "0 \<le> log_scale x" "log_scale x \<le> 1"
proof -
  let ?z = "max x 0.001 * 9 + 1"
  have z: "1 \<le> ?z" "?z \<le> 10" using assms by (simp_all add: max_def)
  have l10: "0 < ln (10::real)" by simp
  have "0 \<le> ln ?z" using z(1) by simp
  then show "0 \<le> log_scale x" using l10 by (simp add: log_scale_def)
  have "ln ?z \<le> ln 10" using z by (subst ln_le_cancel_iff) simp_all
  then show "log_scale x \<le> 1" using l10 by (simp add: log_scale_def)
qed

lemma log_scale_one: "log_scale 1 = 1"
  by (simp add: log_scale_def)

lemma normalize_bin_log:
  assumes "0 \<le> v" "v \<le> m" "0 < m"
  shows "normalize_bin True (Fin m) (Some (Fin v)) = Some (Fin (log_scale (v / m)))"
proof -
  define x where "x = v / m"
  define y where "y = max x 0.001"
  have b: "0 \<le> x" "x \<le> 1" using assms by (simp_all add: x_def)
  then have "fl x = Fin x" by (rule fl_range) simp
  then have d: "jdiv (Fin v) (Fin m) = Fin x"
    using assms by (simp add: x_def)
  have mx: "Math_max (Fin x) (Fin 0.001) = Fin y"
    by (simp add: max_def y_def)
  have y: "0 \<le> y" "y \<le> 1" using b by (simp_all add: max_def y_def)
  have nine: "jsub (Fin 10) (Fin 1) = Fin 9" by (simp add: jsub_def fl_small)
  have "0 \<le> y * 9" "y * 9 \<le> 9" using y by linarith+
  then have mul: "jmul (Fin y) (Fin 9) = Fin (y * 9)"
    using fl_range[of "y * 9" 9] by simp
  have z: "1 \<le> y * 9 + 1" "y * 9 + 1 \<le> 10" using y by linarith+
  then have add: "jadd (Fin (y * 9)) (Fin 1) = Fin (y * 9 + 1)"
    using fl_range[of "y * 9 + 1" 10] by simp
  have lg: "Math_log (Fin (y * 9 + 1)) = Fin (ln (y * 9 + 1))" using z(1) by simp
  have lg10: "Math_log (Fin 10) = Fin (ln 10)" by simp
  have l10: "ln (10::real) \<noteq> 0" by simp
  have ls: "log_scale x = ln (y * 9 + 1) / ln 10" by (simp add: log_scale_def y_def)
  have "fl (log_scale x) = Fin (log_scale x)"
    using log_scale_range[OF b] by (rule fl_range) simp
  then have dv: "jdiv (Fin (ln (y * 9 + 1))) (Fin (ln 10)) = Fin (log_scale x)"
    using l10 by (simp add: ls)
  show ?thesis
    unfolding normalize_bin_def Let_def ToNumber.simps d mx nine mul add lg lg10 dv
    by (simp add: x_def)
qed

lemma fold_abs_replicate:
  assumes "0 \<le> s" "s + real n * \<bar>c\<bar> \<le> 10 ^ 15"
  shows "fold (\<lambda>v sum. jadd sum (Math_abs v)) (replicate n (Fin c)) (Fin s)
           = Fin (s + real n * \<bar>c\<bar>)"
  using assms
proof (induction n arbitrary: s)
  case 0
  then show ?case by simp
next
  case (Suc n)
  have nn: "0 \<le> real n * \<bar>c\<bar>" by simp
  have le: "s + \<bar>c\<bar> + real n * \<bar>c\<bar> \<le> 10 ^ 15"
    using Suc.prems(2) by (simp add: algebra_simps)
  then have "s + \<bar>c\<bar> \<le> 10 ^ 15" using nn by linarith
  then have "fl (s + \<bar>c\<bar>) = Fin (s + \<bar>c\<bar>)"
    using Suc.prems(1) by (intro fl_range[of _ "10 ^ 15"]) simp_all
  moreover have "fold (\<lambda>v sum. jadd sum (Math_abs v)) (replicate n (Fin c)) (Fin (s + \<bar>c\<bar>))
                   = Fin (s + \<bar>c\<bar> + real n * \<bar>c\<bar>)"
    using Suc.prems(1) le by (intro Suc.IH) simp_all
  ultimately show ?case by (simp add: algebra_simps)
qed

lemma length_bound: "n < 2 ^ 32 \<Longrightarrow> real n \<le> 10 ^ 15"
proof -
  assume "n < 2 ^ 32"
  then have "real n < 2 ^ 32" by (simp add: of_nat_less_numeral_power_cancel_iff)
  then show ?thesis by simp
qed

lemma well_formed_result:
  assumes "well_formed a"
  shows "0 \<le> bufferLength a" "bufferLength a < 2 ^ 32"
    "nat (bufferLength a) = length (frequencyData a)"
    "real_of_int (bufferLength a) = real (length (frequencyData a))"
    "jdiv (Fin (sampleRate a)) (Fin 2) = Fin (sampleRate a / 2)"
proof -
  have l: "length (frequencyData a) < 2 ^ 32" and b: "bufferLength a = int (length (frequencyData a))"
    and sr: "0 < sampleRate a" "sampleRate a < overflow_limit"
    using assms by (auto simp: well_formed_def)
  show "0 \<le> bufferLength a" "nat (bufferLength a) = length (frequencyData a)"
    "real_of_int (bufferLength a) = real (length (frequencyData a))"
    by (simp_all add: b)
  have "int (length (frequencyData a)) < 2 ^ 32"
    using l by (metis of_nat_less_iff of_nat_numeral of_nat_power)
  then show "bufferLength a < 2 ^ 32" by (simp add: b)
  have "fl (sampleRate a / 2) = Fin (sampleRate a / 2)" using sr by (intro fl_Fin) simp
  then show "jdiv (Fin (sampleRate a)) (Fin 2) = Fin (sampleRate a / 2)" by simp
qed

text \<open>
  C6, amended. For every well-formed frame processed with \<open>normalize\<close> on, every frequency
  level of the result is a finite number in \<open>[0, 1]\<close>, \<open>dominant.index\<close> is a bin of
  maximal raw magnitude, and that bin maps to exactly 1 when its magnitude is positive
  (with or without the logarithmic scaling) and stays 0 when the spectrum is all zero.
\<close>

theorem normalized_levels:
  assumes "well_formed a" and "opt_normalize opts \<noteq> Some False"
  shows "\<exists>r. processAudioData a opts = Inr r \<and>
     length (out_frequencyData r) = length (frequencyData a) \<and>
     (\<forall>i < length (frequencyData a).
        \<exists>x. out_frequencyData r ! i = Some (Fin x) \<and> 0 \<le> x \<and> x \<le> 1) \<and>
     (\<forall>i < length (frequencyData a).
        byte_value (frequencyData a ! i) \<le> byte_value (frequencyData a ! index (dominant r))) \<and>
     (frequencyData a \<noteq> [] \<longrightarrow> index (dominant r) < length (frequencyData a)) \<and>
     (frequencyData a \<noteq> [] \<and> 0 < byte_value (frequencyData a ! index (dominant r)) \<longrightarrow>
        out_frequencyData r ! index (dominant r) = Some (Fin 1)) \<and>
     (frequencyData a \<noteq> [] \<and> byte_value (frequencyData a ! index (dominant r)) = 0 \<longrightarrow>
        out_frequencyData r ! index (dominant r) = Some (Fin 0))"
proof -
  let ?fd = "frequencyData a" and ?n = "length (frequencyData a)"
  note wf = well_formed_result[OF assms(1)]
  obtain m k where scan: "fold (max_step ?fd) [0..<?n] (Fin 0, 0) = (Fin m, k)"
    and m0: "0 \<le> m" and mx: "\<forall>i<?n. byte_value (?fd ! i) \<le> m"
    and arg: "(m = 0 \<and> k = 0) \<or> (k < ?n \<and> byte_value (?fd ! k) = m \<and> 0 < m)"
    using max_scan[of ?n ?fd] by auto
  have raw: "map (\<lambda>i. typed_get ?fd (Fin (real i))) [0..<?n]
               = map (\<lambda>w. Some (Fin (byte_value w))) ?fd"
    using raw_bins[of ?n ?fd] by simp
  have norm: "(case opt_normalize opts of None \<Rightarrow> True | Some b \<Rightarrow> b)"
    using assms(2) by (cases "opt_normalize opts") auto
  define lg where "lg = (case opt_logarithmic opts of None \<Rightarrow> False | Some b \<Rightarrow> b)"
  define out where "out = (if jgt (Fin m) (Fin 0)
      then map (normalize_bin lg (Fin m)) (map (\<lambda>w. Some (Fin (byte_value w))) ?fd)
      else map (\<lambda>w. Some (Fin (byte_value w))) ?fd)"
  obtain r where r: "processAudioData a opts = Inr r"
    and out: "out_frequencyData r = out" and idx: "index (dominant r) = k"
    unfolding processAudioData_result[OF wf(1,2)] Let_def wf(3) scan raw out_def lg_def
    using norm by simp
  have len: "length out = ?n" by (simp add: out_def)
  have argmax: "byte_value (?fd ! i) \<le> byte_value (?fd ! k)" if "i < ?n" for i
  proof -
    have "byte_value (?fd ! i) \<le> m" using mx that by simp
    moreover have "m \<le> byte_value (?fd ! k)"
      using arg byte_value_range(1)[of "?fd ! k"] by auto
    ultimately show ?thesis by simp
  qed
  have kn: "k < ?n" if "?fd \<noteq> []" using arg that by auto
  show ?thesis
  proof (cases "0 < m")
    case True
    have bin: "out ! i = normalize_bin lg (Fin m) (Some (Fin (byte_value (?fd ! i))))"
      if "i < ?n" for i
      using that True by (simp add: out_def jgt_def)
    have v: "0 \<le> byte_value (?fd ! i)" "byte_value (?fd ! i) \<le> m" if "i < ?n" for i
      using mx that byte_value_range(1) by auto
    have km: "byte_value (?fd ! k) = m" "k < ?n" using arg True by auto
    have range: "\<exists>x. out ! i = Some (Fin x) \<and> 0 \<le> x \<and> x \<le> 1" if "i < ?n" for i
    proof (cases lg)
      case True
      then show ?thesis
        using bin[OF that] normalize_bin_log[OF v[OF that] \<open>0 < m\<close>]
          log_scale_range[of "byte_value (?fd ! i) / m"] v[OF that] \<open>0 < m\<close>
        by simp
    next
      case False
      then show ?thesis
        using bin[OF that] normalize_bin_linear[OF v[OF that] \<open>0 < m\<close>] by simp
    qed
    have top: "out ! k = Some (Fin 1)"
    proof (cases lg)
      case True
      then show ?thesis
        using bin[OF km(2)] normalize_bin_log[OF v[OF km(2)] \<open>0 < m\<close>] km(1) \<open>0 < m\<close>
        by (simp add: log_scale_one)
    next
      case False
      then show ?thesis
        using bin[OF km(2)] normalize_bin_linear(1)[OF v[OF km(2)] \<open>0 < m\<close>] km(1) \<open>0 < m\<close>
        by simp
    qed
    show ?thesis
      using r out idx len range argmax kn top km True by (intro exI[of _ r]) auto
  next
    case False
    then have m: "m = 0" using m0 by simp
    have zero: "byte_value (?fd ! i) = 0" if "i < ?n" for i
      using mx that byte_value_range(1)[of "?fd ! i"] m by (simp add: order_antisym)
    have bin: "out ! i = Some (Fin 0)" if "i < ?n" for i
      using that zero by (simp add: out_def jgt_def m)
    have k0: "k = 0" using arg m by auto
    show ?thesis
      using r out idx len bin argmax kn zero k0 by (intro exI[of _ r]) auto
  qed
qed

lemma four_bin_well_formed: "well_formed four_bin_frame"
  using overflow_limit_large(1) by (simp add: well_formed_def four_bin_frame_def)

theorem normalized_levels_witness:
  "well_formed four_bin_frame \<and> opt_normalize default_options \<noteq> Some False \<and>
   (\<exists>r. processAudioData four_bin_frame default_options = Inr r \<and>
        index (dominant r) < 4 \<and>
        out_frequencyData r ! index (dominant r) = Some (Fin 1))"
proof -
  have n: "opt_normalize default_options \<noteq> Some False" by (simp add: default_options_def)
  have fd: "frequencyData four_bin_frame = [1, 2, 3, 4]" by (simp add: four_bin_frame_def)
  from normalized_levels[OF four_bin_well_formed n]
  obtain r where r: "processAudioData four_bin_frame default_options = Inr r"
    and argmax: "\<forall>i < length (frequencyData four_bin_frame).
        byte_value (frequencyData four_bin_frame ! i)
          \<le> byte_value (frequencyData four_bin_frame ! index (dominant r))"
    and k: "frequencyData four_bin_frame \<noteq> [] \<longrightarrow>
            index (dominant r) < length (frequencyData four_bin_frame)"
    and top: "frequencyData four_bin_frame \<noteq> [] \<and>
              0 < byte_value (frequencyData four_bin_frame ! index (dominant r)) \<longrightarrow>
              out_frequencyData r ! index (dominant r) = Some (Fin 1)"
    by blast
  have "0 < length (frequencyData four_bin_frame)" by (simp add: fd)
  from argmax[rule_format, OF this]
  have "0 < byte_value (frequencyData four_bin_frame ! index (dominant r))"
    by (simp add: fd)
  then show ?thesis
    using four_bin_well_formed n r k top by (auto simp: fd)
qed

lemma normalizedValue_replicate:
  "i < n \<Longrightarrow> normalizedValue (replicate n w) i = Fin (byte_value w / 128 - 1)"
proof -
  assume i: "i < n"
  have b: "0 \<le> byte_value w / 128" "byte_value w / 128 \<le> 2"
    using byte_value_range[of w] by simp_all
  then have d: "fl (byte_value w / 128) = Fin (byte_value w / 128)" by (rule fl_range) simp
  have "\<bar>byte_value w / 128 - 1\<bar> \<le> 10 ^ 15" using b by (simp add: abs_if)
  then have "fl (byte_value w / 128 - 1) = Fin (byte_value w / 128 - 1)" by (rule fl_small)
  then show ?thesis
    using i by (simp add: normalizedValue_def typed_get_nat u8_def d jsub_def)
qed

lemma times_replicate:
  "map (normalizedValue (replicate n w)) [0..<n] = replicate n (Fin (byte_value w / 128 - 1))"
  by (rule nth_equalityI) (simp_all add: normalizedValue_replicate)

text \<open>
  C3, amended. For every well-formed, non-empty frame whose magnitudes are all zero,
  \<open>dominant.amplitude\<close>, \<open>peakLevel\<close> and \<open>dominant.frequency\<close> are 0 and the levels stay
  0 (the normalising division is skipped); no division yields NaN or an infinity. The
  volume is 0 and the frame inactive when the time samples are all at the centre 128; when
  they are all 0 the volume is 1 and the frame is active.
\<close>

theorem silence_invariant:
  assumes "well_formed a" and "frequencyData a = replicate n 0" and "0 < n"
  shows "\<exists>r. processAudioData a opts = Inr r \<and>
     amplitude (dominant r) = Fin 0 \<and> peakLevel r = Fin 0 \<and> frequency (dominant r) = Fin 0 \<and>
     out_frequencyData r = replicate n (Some (Fin 0)) \<and>
     (timeData a = replicate n 128 \<longrightarrow>
        volume r = Fin 0 \<and> \<not> isActive r \<and> out_timeData r = replicate n (Fin 0)) \<and>
     (timeData a = replicate n 0 \<longrightarrow>
        volume r = Fin 1 \<and> isActive r \<and> out_timeData r = replicate n (Fin (- 1)))"
proof -
  let ?fd = "frequencyData a"
  note wf = well_formed_result[OF assms(1)]
  have len: "length ?fd = n" by (simp add: assms(2))
  have n32: "n < 2 ^ 32" using assms(1) len by (simp add: well_formed_def)
  have nb: "real n \<le> 10 ^ 15" by (rule length_bound[OF n32])
  have n0: "real n \<noteq> 0" using assms(3) by simp
  obtain m k where scan: "fold (max_step ?fd) [0..<n] (Fin 0, 0) = (Fin m, k)"
    and arg: "(m = 0 \<and> k = 0) \<or> (k < n \<and> byte_value (?fd ! k) = m \<and> 0 < m)"
    using max_scan[of n ?fd] len by auto
  have "\<not> (k < n \<and> byte_value (?fd ! k) = m \<and> 0 < m)" by (auto simp: assms(2))
  then have "m = 0 \<and> k = 0" using arg by blast
  then have scan0: "fold (max_step ?fd) [0..<n] (Fin 0, 0) = (Fin 0, 0)"
    using scan by simp
  have raw: "map (\<lambda>i. typed_get ?fd (Fin (real i))) [0..<n] = replicate n (Some (Fin 0))"
    using raw_bins[of n ?fd] len by (simp add: assms(2) map_replicate_const)
  have freq: "jdiv (jmul (Fin 0) (Fin (sampleRate a / 2))) (Fin (real n)) = Fin 0"
    using n0 by (simp add: fl_small)
  have v128: "jdiv (fold (\<lambda>v sum. jadd sum (Math_abs v)) (replicate n (Fin 0)) (Fin 0))
                   (Fin (real n)) = Fin 0"
    using fold_abs_replicate[of 0 n 0] n0 by (simp add: fl_small)
  have v0: "jdiv (fold (\<lambda>v sum. jadd sum (Math_abs v)) (replicate n (Fin (- 1))) (Fin 0))
                 (Fin (real n)) = Fin 1"
    using fold_abs_replicate[of 0 n "- 1"] nb n0 by (simp add: fl_small)
  have res: "processAudioData a opts =
      Inr \<lparr>out_frequencyData = replicate n (Some (Fin 0)),
           out_timeData = map (normalizedValue (timeData a)) [0..<n],
           volume = jdiv (fold (\<lambda>v sum. jadd sum (Math_abs v))
                            (map (normalizedValue (timeData a)) [0..<n]) (Fin 0)) (Fin (real n)),
           peakLevel = Fin 0,
           isActive = jgt (jdiv (fold (\<lambda>v sum. jadd sum (Math_abs v))
                            (map (normalizedValue (timeData a)) [0..<n]) (Fin 0)) (Fin (real n)))
                          (Fin 0.05),
           dominant = \<lparr>frequency = Fin 0, amplitude = Fin 0, index = 0\<rparr>\<rparr>"
    unfolding processAudioData_result[OF wf(1,2)] Let_def wf(3,4,5) len scan0 raw
    by (simp add: jgt_def freq fl_small del: jdiv.simps jmul.simps)
       (simp add: fl_small)
  have t128: "map (normalizedValue (replicate n 128)) [0..<n] = replicate n (Fin 0)"
    using times_replicate[of n 128] by simp
  have t0: "map (normalizedValue (replicate n 0)) [0..<n] = replicate n (Fin (- 1))"
    using times_replicate[of n 0] by simp
  show ?thesis
    unfolding res
    by (auto simp: t128 t0 v128 v0 jgt_def simp del: fold_replicate)
qed

lemma silent_frame_well_formed: "well_formed silent_frame"
  using overflow_limit_large(1) by (simp add: well_formed_def silent_frame_def)

theorem silence_invariant_witness:
  "well_formed silent_frame \<and> frequencyData silent_frame = replicate 1 0 \<and> (0::nat) < 1 \<and>
   timeData silent_frame = replicate 1 128 \<and>
   (\<exists>r. processAudioData silent_frame default_options = Inr r \<and>
        volume r = Fin 0 \<and> \<not> isActive r \<and> amplitude (dominant r) = Fin 0)"
proof -
  have fd: "frequencyData silent_frame = replicate 1 0"
    and td: "timeData silent_frame = replicate 1 128"
    by (simp_all add: silent_frame_def)
  have pos: "(0::nat) < 1" by simp
  from silence_invariant[OF silent_frame_well_formed fd pos, of default_options] td
  show ?thesis using silent_frame_well_formed fd by blast
qed

text \<open>
  C1, amended. \<open>processAudioData\<close> validates nothing about the shape of the frame: for
  every frame whose \<open>bufferLength\<close> is an array length it returns a result with
  \<open>bufferLength\<close> levels and samples, whatever the lengths of the two arrays; a sample
  missing from \<open>timeData\<close> comes out as NaN and the volume of an empty frame is NaN. Its only
  error is the RangeError of allocating an array whose length is negative or \<open>2 ^ 32\<close> or
  more.
\<close>

theorem processAudioData_total:
  "(0 \<le> bufferLength a \<and> bufferLength a < 2 ^ 32 \<longrightarrow>
      (\<exists>r. processAudioData a opts = Inr r \<and>
           length (out_frequencyData r) = nat (bufferLength a) \<and>
           length (out_timeData r) = nat (bufferLength a) \<and>
           (\<forall>i < nat (bufferLength a). length (timeData a) \<le> i \<longrightarrow> out_timeData r ! i = NaN) \<and>
           (bufferLength a = 0 \<longrightarrow> volume r = NaN))) \<and>
   (bufferLength a < 0 \<or> 2 ^ 32 \<le> bufferLength a \<longrightarrow> processAudioData a opts = Inl RangeError)"
proof (intro conjI impI)
  assume "bufferLength a < 0 \<or> 2 ^ 32 \<le> bufferLength a"
  then show "processAudioData a opts = Inl RangeError"
    by (auto simp: processAudioData_def new_Array_def)
next
  assume b: "0 \<le> bufferLength a \<and> bufferLength a < 2 ^ 32"
  then have b': "0 \<le> bufferLength a" "bufferLength a < 2 ^ 32" by simp_all
  have nan: "normalizedValue (timeData a) i = NaN" if "length (timeData a) \<le> i" for i
    using that by (simp add: normalizedValue_def typed_get_nat jsub_def)
  have empty: "jdiv (Fin 0) (Fin 0) = NaN" by (simp add: inf_of_sign_def)
  show "\<exists>r. processAudioData a opts = Inr r \<and>
           length (out_frequencyData r) = nat (bufferLength a) \<and>
           length (out_timeData r) = nat (bufferLength a) \<and>
           (\<forall>i < nat (bufferLength a). length (timeData a) \<le> i \<longrightarrow> out_timeData r ! i = NaN) \<and>
           (bufferLength a = 0 \<longrightarrow> volume r = NaN)"
    unfolding processAudioData_result[OF b'] Let_def
    by (auto simp: nan empty simp del: jdiv.simps jmul.simps)
qed

theorem processAudioData_total_witness:
  "0 \<le> bufferLength mismatched_frame \<and> bufferLength mismatched_frame < 2 ^ 32 \<and>
   length (timeData mismatched_frame) \<noteq> length (frequencyData mismatched_frame) \<and>
   (\<exists>r. processAudioData mismatched_frame default_options = Inr r \<and> out_timeData r ! 0 = NaN) \<and>
   bufferLength negative_length_frame < 0 \<and>
   processAudioData negative_length_frame default_options = Inl RangeError"
proof -
  have m: "0 \<le> bufferLength mismatched_frame \<and> bufferLength mismatched_frame < 2 ^ 32"
    "nat (bufferLength mismatched_frame) = 1" "length (timeData mismatched_frame) = 0"
    "length (frequencyData mismatched_frame) = 1"
    by (simp_all add: mismatched_frame_def)
  have n: "bufferLength negative_length_frame < 0" by (simp add: negative_length_frame_def)
  from processAudioData_total[of mismatched_frame default_options] m
  have "\<exists>r. processAudioData mismatched_frame default_options = Inr r \<and> out_timeData r ! 0 = NaN"
    by auto
  moreover from processAudioData_total[of negative_length_frame default_options] n
  have "processAudioData negative_length_frame default_options = Inl RangeError" by blast
  ultimately show ?thesis using m n by simp
qed

section \<open>extractFrequencyBands\<close>

lemma Math_min_Fin: "Math_min (Fin x) (Fin y) = Fin (min x y)"
  by (simp add: min_def)





section \<open>calculateSpectrumCharacteristics\<close>

lemma fold_nth: "fold (\<lambda>i. f (xs ! i)) [0..<length xs] a = fold f xs a"
proof -
  have "fold f (map (nth xs) [0..<length xs]) a = fold (f \<circ> nth xs) [0..<length xs] a"
    by (simp add: fold_map)
  then show ?thesis by (simp add: map_nth comp_def)
qed

lemma spectrum_fold_parts:
  "fold (spectrum_step fd nyq) is (s, w, p) =
     (fold (\<lambda>i acc. jadd acc (fd ! i)) is s,
      fold (\<lambda>i acc. jadd acc (jmul (jdiv (jmul (Fin (real i)) nyq) (Fin (real (length fd))))
                                     (fd ! i))) is w,
      fold (\<lambda>i acc. if jgt (fd ! i) (Fin 0) then jmul acc (fd ! i) else acc) is p)"
  by (induction "is" arbitrary: s w p) (simp_all add: spectrum_step_def Let_def)

lemma sum_bytes:
  assumes "0 \<le> s" "s + 255 * real (length ws) \<le> 10 ^ 15"
  shows "fold (\<lambda>v acc. jadd acc v) (map u8 ws) (Fin s) = Fin (s + amplitude_sum ws)"
  using assms
proof (induction ws arbitrary: s)
  case Nil
  then show ?case by (simp add: amplitude_sum_def)
next
  case (Cons w ws)
  note r = byte_value_range[of w]
  have "fl (s + byte_value w) = Fin (s + byte_value w)"
    using Cons.prems r by (intro fl_small) (simp add: abs_if)
  moreover have "fold (\<lambda>v acc. jadd acc v) (map u8 ws) (Fin (s + byte_value w))
       = Fin (s + byte_value w + amplitude_sum ws)"
    using Cons.prems r by (intro Cons.IH) simp_all
  moreover have "u8 w = Fin (byte_value w)" by (simp add: u8_def)
  ultimately show ?case by (simp add: amplitude_sum_def add.assoc)
qed

lemma positive_byte_ge_1: "0 < byte_value w \<Longrightarrow> 1 \<le> byte_value w"
proof -
  assume "0 < byte_value w"
  then have "0 < unat w" unfolding byte_value_def by (simp only: of_nat_0_less_iff)
  then have "1 \<le> unat w" by simp
  then show ?thesis unfolding byte_value_def by linarith
qed

lemma positive_product_ge_1: "1 \<le> positive_product ws"
proof (induction ws)
  case Nil
  then show ?case by (simp add: positive_product_def)
next
  case (Cons w ws)
  show ?case
  proof (cases "0 < byte_value w")
    case True
    then have "1 \<le> byte_value w" by (rule positive_byte_ge_1)
    then have "1 * 1 \<le> byte_value w * positive_product ws"
      using Cons.IH by (intro mult_mono) simp_all
    then show ?thesis using True by (simp add: positive_product_def)
  next
    case False
    then show ?thesis using Cons.IH by (simp add: positive_product_def)
  qed
qed

lemma product_bytes:
  assumes "1 \<le> p" "p * positive_product ws < overflow_limit"
  shows "fold (\<lambda>v acc. if jgt v (Fin 0) then jmul acc v else acc) (map u8 ws) (Fin p)
           = Fin (p * positive_product ws)"
  using assms
proof (induction ws arbitrary: p)
  case Nil
  then show ?case by (simp add: positive_product_def)
next
  case (Cons w ws)
  show ?case
  proof (cases "0 < byte_value w")
    case True
    have pp: "positive_product (w # ws) = byte_value w * positive_product ws"
      using True by (simp add: positive_product_def)
    have w1: "1 \<le> byte_value w" by (rule positive_byte_ge_1[OF True])
    have le: "p * byte_value w * positive_product ws < overflow_limit"
      using Cons.prems(2) by (simp add: pp mult.assoc)
    have "p * byte_value w * 1 \<le> p * byte_value w * positive_product ws"
      using positive_product_ge_1[of ws] Cons.prems(1) w1 by (intro mult_left_mono) simp_all
    then have "p * byte_value w < overflow_limit" using le by simp
    moreover have "0 \<le> p * byte_value w" using Cons.prems(1) w1 by simp
    ultimately have "fl (p * byte_value w) = Fin (p * byte_value w)" by (intro fl_Fin) simp
    moreover have "1 \<le> p * byte_value w"
      using Cons.prems(1) w1 by (metis mult_mono mult_1 zero_le_one order_trans)
    then have "fold (\<lambda>v acc. if jgt v (Fin 0) then jmul acc v else acc) (map u8 ws)
                 (Fin (p * byte_value w)) = Fin (p * byte_value w * positive_product ws)"
      using le by (intro Cons.IH) simp_all
    moreover have "u8 w = Fin (byte_value w)" by (simp add: u8_def)
    ultimately show ?thesis using True by (simp add: jgt_def pp mult.assoc)
  next
    case False
    then have pp: "positive_product (w # ws) = positive_product ws"
      by (simp add: positive_product_def)
    have "u8 w = Fin (byte_value w)" by (simp add: u8_def)
    then show ?thesis using False Cons.IH[OF Cons.prems(1)] Cons.prems(2)
      by (simp add: jgt_def pp)
  qed
qed

text \<open>The flatness depends on the sum and on the product of the loop only.\<close>

lemma flatness_parts:
  "flatness (calculateSpectrumCharacteristics fd rate) =
     (let s = fold (\<lambda>v acc. jadd acc v) fd (Fin 0);
          p = fold (\<lambda>v acc. if jgt v (Fin 0) then jmul acc v else acc) fd (Fin 1);
          geometricMean =
            (if jgt s (Fin 0) then Math_pow p (jdiv (Fin 1) (Fin (real (length fd)))) else Fin 0);
          arithmeticMean = jdiv s (Fin (real (length fd)))
      in if jgt arithmeticMean (Fin 0) then jdiv geometricMean arithmeticMean else Fin 0)"
  unfolding calculateSpectrumCharacteristics_def Let_def spectrum_fold_parts
  by (simp add: fold_nth[of "\<lambda>v acc. jadd acc v"]
      fold_nth[of "\<lambda>v acc. if jgt v (Fin 0) then jmul acc v else acc"]
      del: jdiv.simps jmul.simps jadd.simps)

lemma positive_product_le: "positive_product ws \<le> 255 ^ length ws"
proof (induction ws)
  case Nil
  then show ?case by (simp add: positive_product_def)
next
  case (Cons w ws)
  show ?case
  proof (cases "0 < byte_value w")
    case True
    have "byte_value w * positive_product ws \<le> 255 * 255 ^ length ws"
      using byte_value_range[of w] Cons.IH positive_product_ge_1[of ws]
      by (intro mult_mono) simp_all
    then show ?thesis using True by (simp add: positive_product_def)
  next
    case False
    have a: "(255::real) ^ length ws \<le> 255 * 255 ^ length ws" by simp
    have pp: "positive_product (w # ws) = positive_product ws"
      using False by (simp add: positive_product_def)
    have "positive_product (w # ws) \<le> 255 * 255 ^ length ws"
      unfolding pp by (rule order_trans[OF Cons.IH a])
    then show ?thesis by simp
  qed
qed

lemma amplitude_sum_range: "0 \<le> amplitude_sum ws" "amplitude_sum ws \<le> 255 * real (length ws)"
proof -
  show "0 \<le> amplitude_sum ws"
    unfolding amplitude_sum_def by (intro sum_list_nonneg) (auto simp: byte_value_range)
  show "amplitude_sum ws \<le> 255 * real (length ws)"
    unfolding amplitude_sum_def
  proof (induction ws)
    case Nil
    then show ?case by simp
  next
    case (Cons w ws)
    then show ?case using byte_value_range(2)[of w] by (simp add: algebra_simps)
  qed
qed

lemma amplitude_sum_ge_1: "0 < amplitude_sum ws \<Longrightarrow> 1 \<le> amplitude_sum ws"
proof (induction ws)
  case Nil
  then show ?case by (simp add: amplitude_sum_def)
next
  case (Cons w ws)
  show ?case
  proof (cases "0 < byte_value w")
    case True
    then show ?thesis
      using positive_byte_ge_1[OF True] amplitude_sum_range(1)[of ws]
      by (simp add: amplitude_sum_def)
  next
    case False
    then have "byte_value w = 0" using byte_value_range(1)[of w] by simp
    then show ?thesis using Cons by (simp add: amplitude_sum_def)
  qed
qed

lemma flatness_bytes:
  assumes "length ws < 2 ^ 32" "positive_product ws < overflow_limit"
  shows "flatness (calculateSpectrumCharacteristics (map u8 ws) rate) =
           (if 0 < amplitude_sum ws then Fin (byte_flatness ws) else Fin 0)"
proof -
  let ?n = "real (length ws)" and ?S = "amplitude_sum ws" and ?P = "positive_product ws"
  have nb: "?n < 2 ^ 32" using assms(1) by (simp add: of_nat_less_numeral_power_cancel_iff)
  have "255 * ?n \<le> 10 ^ 15" using nb by simp
  then have s: "fold (\<lambda>v acc. jadd acc v) (map u8 ws) (Fin 0) = Fin ?S"
    using sum_bytes[of 0 ws] by simp
  have p: "fold (\<lambda>v acc. if jgt v (Fin 0) then jmul acc v else acc) (map u8 ws) (Fin 1) = Fin ?P"
    using product_bytes[of 1 ws] assms(2) by simp
  show ?thesis
  proof (cases "0 < ?S")
    case False
    then have S0: "?S = 0" using amplitude_sum_range(1)[of ws] by simp
    have "\<not> jgt (jdiv (Fin 0) (Fin ?n)) (Fin 0)"
      by (simp add: jgt_def inf_of_sign_def fl_small)
    then show ?thesis
      unfolding flatness_parts Let_def s p S0 by (simp add: jgt_def del: jdiv.simps)
  next
    case True
    then have n0: "0 < ?n" by (cases ws) (simp_all add: amplitude_sum_def)
    have "0 < length ws" using n0 by simp
    then have n1: "1 \<le> ?n" by linarith
    have e: "jdiv (Fin 1) (Fin ?n) = Fin (1 / ?n)"
    proof -
      have "1 / ?n \<le> 1" using n1 by (simp add: divide_le_eq_1)
      then have "fl (1 / ?n) = Fin (1 / ?n)" using n0 by (intro fl_range[of _ 1]) simp_all
      then show ?thesis using n0 by simp
    qed
    have P1: "1 \<le> ?P" by (rule positive_product_ge_1)
    define g where "g = ?P powr (1 / ?n)"
    have "?P powr (1 / ?n) \<le> (255 ^ length ws) powr (1 / ?n)"
      using positive_product_le[of ws] P1 by (intro powr_mono2) simp_all
    also have "\<dots> = 255" using n0 by (simp add: powr_realpow[symmetric] powr_powr)
    finally have g255: "g \<le> 255" by (simp add: g_def)
    have g0: "0 < g" using P1 by (simp add: g_def)
    have gm: "Math_pow (Fin ?P) (Fin (1 / ?n)) = Fin g"
    proof -
      have "fl g = Fin g" using g0 g255 by (intro fl_range[of _ 255]) simp_all
      then show ?thesis using P1 n0 by (simp add: Math_pow.simps g_def)
    qed
    define m where "m = ?S / ?n"
    have S1: "1 \<le> ?S" by (rule amplitude_sum_ge_1[OF True])
    have m0: "0 < m" using True n0 by (simp add: m_def)
    have "m \<le> 255" using amplitude_sum_range(2)[of ws] n0 by (simp add: m_def pos_divide_le_eq)
    then have am: "jdiv (Fin ?S) (Fin ?n) = Fin m"
      using n0 m0 fl_range[of m 255] by (simp add: m_def)
    have "1 / ?n \<le> m" using S1 n0 by (simp add: m_def divide_right_mono)
    then have "g / m \<le> g * ?n"
      using g0 m0 n0 by (simp add: field_simps)
    also have "\<dots> \<le> 255 * 2 ^ 32" using g255 nb g0 by (intro mult_mono) simp_all
    finally have "g / m \<le> 10 ^ 15" by simp
    then have "fl (g / m) = Fin (g / m)" using g0 m0 by (intro fl_range[of _ "10 ^ 15"]) simp_all
    then have fin: "jdiv (Fin g) (Fin m) = Fin (g / m)" using m0 by simp
    have "flatness (calculateSpectrumCharacteristics (map u8 ws) rate) = Fin (g / m)"
      unfolding flatness_parts Let_def s p length_map e
      using True m0 by (simp add: jgt_def gm am fin del: jdiv.simps)
    moreover have "byte_flatness ws = g / m" by (simp add: byte_flatness_def g_def m_def)
    ultimately show ?thesis using True by simp
  qed
qed

lemma replicate_parts:
  "0 < byte_value w \<Longrightarrow> positive_product (replicate n w) = byte_value w ^ n"
  "amplitude_sum (replicate n w) = real n * byte_value w"
  by (induction n) (simp_all add: positive_product_def amplitude_sum_def algebra_simps)

lemma single_bin_parts:
  "0 < byte_value w \<Longrightarrow> positive_product (replicate i 0 @ w # replicate j 0) = byte_value w"
  "amplitude_sum (replicate i 0 @ w # replicate j 0) = byte_value w"
  by (simp_all add: positive_product_def amplitude_sum_def sum_list_replicate)

lemma byte_flatness_equal:
  assumes "0 < n" "0 < byte_value w"
  shows "byte_flatness (replicate n w) = 1"
proof -
  have "(byte_value w ^ n) powr (1 / real n) = byte_value w"
    using assms by (simp add: powr_realpow[symmetric] powr_powr)
  then show ?thesis using assms by (simp add: byte_flatness_def replicate_parts)
qed

lemma byte_flatness_single:
  assumes "0 < byte_value w"
  shows "byte_flatness (replicate i 0 @ w # replicate j 0)
           = real (i + j + 1) * byte_value w powr (1 / real (i + j + 1)) / byte_value w"
  using assms by (simp add: byte_flatness_def single_bin_parts)

text \<open>
  C4, amended. On a byte array whose product of positive amplitudes does not overflow, the
  flatness is the \<open>N\<close>-th root of that product (zero bins left out of the product,
  counted in \<open>N\<close>) over the arithmetic mean, and 0 when the total amplitude is 0. With all
  \<open>n\<close> bins equal to a positive \<open>w\<close> (and \<open>w ^ n\<close> below the overflow limit) the flatness
  is 1. With a single non-zero bin \<open>w\<close> among \<open>N - 1\<close> zeros the flatness is
  \<open>N * w ^ (1 / N) / w\<close>, which is not 0.
\<close>

theorem flatness_cases:
  "(length ws < 2 ^ 32 \<and> positive_product ws < overflow_limit \<longrightarrow>
      flatness (calculateSpectrumCharacteristics (map u8 ws) rate) =
        (if 0 < amplitude_sum ws then Fin (byte_flatness ws) else Fin 0)) \<and>
   (0 < n \<and> n < 2 ^ 32 \<and> 0 < byte_value w \<and> byte_value w ^ n < overflow_limit \<longrightarrow>
      flatness (calculateSpectrumCharacteristics (map u8 (replicate n w)) rate) = Fin 1) \<and>
   (0 < byte_value w \<and> i + j + 1 < 2 ^ 32 \<longrightarrow>
      flatness (calculateSpectrumCharacteristics (map u8 (replicate i 0 @ w # replicate j 0)) rate)
        = Fin (real (i + j + 1) * byte_value w powr (1 / real (i + j + 1)) / byte_value w))"
proof (intro conjI impI)
  assume "length ws < 2 ^ 32 \<and> positive_product ws < overflow_limit"
  then show "flatness (calculateSpectrumCharacteristics (map u8 ws) rate) =
        (if 0 < amplitude_sum ws then Fin (byte_flatness ws) else Fin 0)"
    using flatness_bytes[of ws rate] by simp
next
  assume a: "0 < n \<and> n < 2 ^ 32 \<and> 0 < byte_value w \<and> byte_value w ^ n < overflow_limit"
  then have "0 < amplitude_sum (replicate n w)" by (simp add: replicate_parts)
  then show "flatness (calculateSpectrumCharacteristics (map u8 (replicate n w)) rate) = Fin 1"
    using a flatness_bytes[of "replicate n w" rate]
    by (simp add: replicate_parts byte_flatness_equal)
next
  assume a: "0 < byte_value w \<and> i + j + 1 < 2 ^ 32"
  have "(255::real) \<le> 10 ^ 15" by simp
  then have "byte_value w < overflow_limit"
    using byte_value_range(2)[of w] overflow_limit_large(2) by linarith
  then show "flatness (calculateSpectrumCharacteristics (map u8 (replicate i 0 @ w # replicate j 0)) rate)
        = Fin (real (i + j + 1) * byte_value w powr (1 / real (i + j + 1)) / byte_value w)"
    using a flatness_bytes[of "replicate i 0 @ w # replicate j 0" rate]
    by (simp add: single_bin_parts byte_flatness_single del: of_nat_add of_nat_Suc)
qed

lemma root_16: "(16::real) powr (1 / 4) = 2"
proof -
  have "(16::real) = 2 powr 4" by simp
  then have "(16::real) powr (1 / 4) = (2 powr 4) powr (1 / 4)" by simp
  also have "\<dots> = 2" by (simp add: powr_powr)
  finally show ?thesis .
qed

text \<open>
  C4, as stated, fails: a single non-zero bin among zeros does not give flatness 0. For
  the magnitudes 0, 0, 0, 16 the product of the positive bins is 16, its fourth root is 2,
  the mean is 4 and the flatness is 1/2.
\<close>

theorem flatness_single_bin:
  "flatness (calculateSpectrumCharacteristics (map u8 [0, 0, 0, 16]) 44100) = Fin (1 / 2)"
proof -
  have pp: "positive_product [0, 0, 0, 16] = 16" "amplitude_sum [0, 0, 0, 16] = 16"
    by (simp_all add: positive_product_def amplitude_sum_def)
  have "positive_product [0, 0, 0, 16] < overflow_limit"
    unfolding pp using overflow_limit_large(2) by simp
  from flatness_bytes[OF _ this, of 44100]
  show ?thesis by (simp add: pp byte_flatness_def root_16)
qed

theorem flatness_cases_witness:
  "length [4, 4 :: 8 word] < 2 ^ 32 \<and> positive_product [4, 4] < overflow_limit \<and>
   flatness (calculateSpectrumCharacteristics (map u8 [4, 4]) 44100) = Fin 1 \<and>
   (0::nat) < 2 \<and> (2::nat) < 2 ^ 32 \<and> 0 < byte_value 4 \<and> byte_value 4 ^ 2 < overflow_limit \<and>
   flatness (calculateSpectrumCharacteristics (map u8 (replicate 2 4)) 44100) = Fin 1 \<and>
   0 < byte_value 16 \<and> (3::nat) + 0 + 1 < 2 ^ 32 \<and>
   flatness (calculateSpectrumCharacteristics (map u8 (replicate 3 0 @ 16 # replicate 0 0)) 44100)
     = Fin (1 / 2)"
proof -
  have lim: "(16::real) < overflow_limit" using overflow_limit_large(2) by simp
  have pp: "positive_product [4, 4] = 16" "amplitude_sum [4, 4] = 8"
    by (simp_all add: positive_product_def amplitude_sum_def)
  have sq: "(16::real) powr (1 / 2) = 4"
  proof -
    have "(16::real) = 4 powr 2" by simp
    then have "(16::real) powr (1 / 2) = (4 powr 2) powr (1 / 2)" by simp
    also have "\<dots> = 4" by (simp add: powr_powr)
    finally show ?thesis .
  qed
  have bf: "byte_flatness [4, 4] = 1" by (simp add: byte_flatness_def pp sq)
  note a = flatness_cases[of "[4, 4]" 44100 2 4 3 0]
  note b = flatness_cases[of "[4, 4]" 44100 2 16 3 0]
  have 1: "flatness (calculateSpectrumCharacteristics (map u8 [4, 4]) 44100) = Fin 1"
    using a lim by (simp add: pp bf)
  have 2: "flatness (calculateSpectrumCharacteristics (map u8 (replicate 2 4)) 44100) = Fin 1"
    using a lim by simp
  have 3: "flatness (calculateSpectrumCharacteristics
              (map u8 (replicate 3 0 @ 16 # replicate 0 0)) 44100) = Fin (1 / 2)"
    using b by (simp add: root_16)
  show ?thesis using 1 2 3 lim by (simp add: pp)
qed

text \<open>
  The product of 1024 bins of magnitude 2 is \<open>2 ^ 1024\<close>: it overflows, and so does the
  flatness.
\<close>

lemma flatness_overflow:
  "flatness (calculateSpectrumCharacteristics (map u8 (replicate 1024 2)) 44100) = PInf"
proof -
  let ?f = "\<lambda>v acc. if jgt v (Fin 0) then jmul acc v else acc"
  have split: "replicate 1024 (2 :: 8 word) = replicate 1023 2 @ [2]"
  proof -
    have "replicate (Suc 1023) (2 :: 8 word) = replicate 1023 2 @ [2]"
      by (simp only: replicate_Suc replicate_append_same)
    then show ?thesis by simp
  qed
  have "(2::real) ^ 1023 < overflow_limit" by (simp add: overflow_limit_def)
  then have "fold ?f (map u8 (replicate 1023 2)) (Fin 1) = Fin (2 ^ 1023)"
    using product_bytes[of 1 "replicate 1023 2"] by (simp add: replicate_parts)
  moreover have "fl (2 ^ 1023 * 2) = PInf" by (simp add: fl_def overflow_limit_def)
  ultimately have p: "fold ?f (map u8 (replicate 1024 2)) (Fin 1) = PInf"
    unfolding split by (simp add: u8_def jgt_def)
  have s: "fold (\<lambda>v acc. jadd acc v) (map u8 (replicate 1024 2)) (Fin 0) = Fin 2048"
    using sum_bytes[of 0 "replicate 1024 2"] by (simp add: replicate_parts)
  show ?thesis
    unfolding flatness_parts Let_def s p
    by (simp add: jgt_def fl_small Math_pow.simps)
qed

end
